theory Spec2Isabelle
  imports Complex_Main "HOL-Library.Word" "HOL-Library.Sublist" "HOL-Library.AList"
begin

section \<open>Data model of \<^verbatim>\<open>main.go\<close>\<close>

text \<open>
  The program is concurrent: one goroutine per request runs \<^verbatim>\<open>requestHandler\<close>, a fixed
  pool runs \<^verbatim>\<open>worker\<close>, and \<^verbatim>\<open>main\<close> drives shutdown. The embedding is an interleaving
  semantics: every goroutine has a program counter named after the source line it is about
  to execute, one step executes one atomic operation of the source (an atomic add, a
  channel operation, a mutex operation, a map access), and a schedule is the list of
  goroutines that take the steps.
\<close>

type_synonym int64 = "64 word"

text \<open>What the handler reads from \<^verbatim>\<open>*fasthttp.RequestCtx\<close>.\<close>

record Request =
  Method :: string
  Path :: string
  RemoteAddr :: string
  Header :: "(string \<times> string) list"
  Body :: string

record RequestBody =
  body :: string
  method_v :: string

text \<open>
  \<^verbatim>\<open>sync.RWMutex\<close>: the number of goroutines holding the read lock and whether the write lock
  is held.
\<close>

record RWMutex =
  readers :: nat
  writer :: bool

text \<open>
  \<^verbatim>\<open>Metrics\<close>. The map \<^verbatim>\<open>methodCounts\<close> holds pointers to \<^verbatim>\<open>atomic.Int64\<close> objects: a pointer is
  an index into the list \<open>heap\<close> of the system state, which grows by one at every
  \<^verbatim>\<open>&atomic.Int64{}\<close>. The map is an association list with at most one entry per key; Go
  leaves its iteration order unspecified.
\<close>

record Metrics =
  totalRequests :: int64
  totalBodySize :: int64
  droppedBodies :: int64
  methodCounts :: "(string \<times> nat) list"
  methodCountsMux :: RWMutex

text \<open>
  A Go channel as the runtime keeps it: the buffer, its capacity, the closed flag and the
  queue of receivers parked on the empty channel (worker indices, oldest first).
\<close>

record chan =
  buf :: "RequestBody list"
  cap :: nat
  chan_closed :: bool
  recvq :: "nat list"

section \<open>\<^verbatim>\<open>float64\<close>\<close>

text \<open>
  A \<^verbatim>\<open>float64\<close> is a finite number with its sign bit (\<open>True\<close> is negative, so there are two
  zeros), an infinity or NaN. The magnitude of a finite number is a multiple \<open>m * 2 ^ e\<close>
  with \<open>m < 2 ^ 53\<close> and \<open>- 1074 \<le> e \<le> 971\<close>; it is kept as the rational number it denotes.
\<close>

datatype float64 = Finite bool rat | Infinite bool | NaN

text \<open>The number of binary digits of a positive integer.\<close>

function bitlen :: "int \<Rightarrow> int" where
  "bitlen n = (if n \<le> 0 then 0 else 1 + bitlen (n div 2))"
  by pat_completeness auto
termination
  by (relation "measure nat") auto

declare bitlen.simps [simp del]

text \<open>The binary exponent of a positive rational: \<open>2 powi ilog2 x \<le> x < 2 powi (ilog2 x + 1)\<close>.\<close>

definition ilog2 :: "rat \<Rightarrow> int" where
  "ilog2 x =
     (case quotient_of x of
        (p, q) \<Rightarrow> let k = bitlen p - bitlen q in if 2 powi k \<le> x then k else k - 1)"

text \<open>The nearest integer, the even one of two that are equally near.\<close>

definition round_half_even :: "rat \<Rightarrow> int" where
  "round_half_even x =
     (let n = \<lfloor>x\<rfloor>; r = x - of_int n in
      if r < 1 / 2 then n else if 1 / 2 < r then n + 1 else if even n then n else n + 1)"

text \<open>
  Rounding of an exact magnitude to the nearest \<^verbatim>\<open>float64\<close>, ties to even: the unit of the
  result is \<open>2 powi e\<close>, 52 binary places below the leading digit and not below the
  smallest subnormal; a result of \<open>2 ^ 1024\<close> or more is an infinity.
\<close>

definition round_float64 :: "bool \<Rightarrow> rat \<Rightarrow> float64" where
  "round_float64 neg a =
     (if a = 0 then Finite neg 0
      else let e = max (ilog2 a - 52) (- 1074);
               m = round_half_even (a / 2 powi e)
           in if 971 < e \<or> (e = 971 \<and> m = 2 ^ 53) then Infinite neg
              else Finite neg (of_int m * 2 powi e))"

text \<open>The conversion \<^verbatim>\<open>float64(x)\<close> of an integer, division and multiplication.\<close>

definition float64_of_int :: "int \<Rightarrow> float64" where
  "float64_of_int k = round_float64 (k < 0) \<bar>of_int k\<bar>"

fun fdiv :: "float64 \<Rightarrow> float64 \<Rightarrow> float64" where
  "fdiv (Finite s a) (Finite t b) =
     (if b = 0 then (if a = 0 then NaN else Infinite (s \<noteq> t))
      else round_float64 (s \<noteq> t) (a / b))"
| "fdiv (Finite s a) (Infinite t) = Finite (s \<noteq> t) 0"
| "fdiv (Infinite s) (Finite t b) = Infinite (s \<noteq> t)"
| "fdiv (Infinite s) (Infinite t) = NaN"
| "fdiv NaN y = NaN"
| "fdiv x NaN = NaN"

fun fmul :: "float64 \<Rightarrow> float64 \<Rightarrow> float64" where
  "fmul (Finite s a) (Finite t b) = round_float64 (s \<noteq> t) (a * b)"
| "fmul (Finite s a) (Infinite t) = (if a = 0 then NaN else Infinite (s \<noteq> t))"
| "fmul (Infinite s) (Finite t b) = (if b = 0 then NaN else Infinite (s \<noteq> t))"
| "fmul (Infinite s) (Infinite t) = Infinite (s \<noteq> t)"
| "fmul NaN y = NaN"
| "fmul x NaN = NaN"

fun is_zero :: "float64 \<Rightarrow> bool" where
  "is_zero (Finite s a) = (a = 0)"
| "is_zero x = False"

text \<open>
  Console output is kept as the sequence of \<^verbatim>\<open>fmt.Println\<close> and \<^verbatim>\<open>fmt.Printf\<close> calls with
  their arguments. A \<^verbatim>\<open>float64\<close> argument is kept as the expression the code evaluates;
  \<open>f64_val\<close> is its value, every operation rounded.
\<close>

datatype f64 = OfInt64 int64 | Const int | Div f64 f64 | Mul f64 f64

fun f64_val :: "f64 \<Rightarrow> float64" where
  "f64_val (OfInt64 x) = float64_of_int (sint x)"
| "f64_val (Const k) = float64_of_int k"
| "f64_val (Div a b) = fdiv (f64_val a) (f64_val b)"
| "f64_val (Mul a b) = fmul (f64_val a) (f64_val b)"

text \<open>Every divisor of the expression is different from zero.\<close>

fun divisors_nonzero :: "f64 \<Rightarrow> bool" where
  "divisors_nonzero (OfInt64 x) = True"
| "divisors_nonzero (Const k) = True"
| "divisors_nonzero (Div a b) =
     (divisors_nonzero a \<and> divisors_nonzero b \<and> \<not> is_zero (f64_val b))"
| "divisors_nonzero (Mul a b) = (divisors_nonzero a \<and> divisors_nonzero b)"

datatype fmt_arg = S string | D int | F f64

datatype out = Println string | Printf string "fmt_arg list"

text \<open>Program counters: the number is the line of \<^verbatim>\<open>main.go\<close> executed next.\<close>

datatype hpc =
  H116 | H123 | H144 | H154 | H159
  | H174 | H175 | H176 | H179 | H181 | H182 | H185 | H188
  | HRet | HDone

text \<open>
  What became of the request's body at the \<^verbatim>\<open>select\<close> of line 150. The field \<open>pushed\<close> is
  a history variable: no step reads it.
\<close>

datatype push = NotTried | Enqueued | Rejected

text \<open>
  One invocation of \<^verbatim>\<open>requestHandler\<close>: the request, the program counter, the status
  code stored in the response, the locals \<^verbatim>\<open>counter\<close> (nil is \<open>None\<close>) and \<^verbatim>\<open>exists\<close> of
  \<^verbatim>\<open>incrementMethodCount\<close>, and the status the client has received, if any.
\<close>

record handler =
  ctx :: Request
  pc :: hpc
  status :: "nat option"
  counter :: "nat option"
  exists_v :: bool
  pushed :: push
  replied :: "nat option"

text \<open>
  A worker is about to receive (line 166), parked in the receive, about to add the size
  of the item it holds (line 169), about to run the deferred \<^verbatim>\<open>wg.Done()\<close> (line 164), or
  gone.
\<close>

datatype wpc = W166 | W166_parked | W169 RequestBody | W164 | WExited

datatype mpc = M98 | M102 | M102_wait | M107 | M108 | M111 | MExit

record sys =
  metrics :: Metrics
  heap :: "int64 list"
  bodyQueue :: chan
  handlers :: "handler list"
  workers :: "wpc list"
  wg :: nat
  main_pc :: mpc
  sigChan :: bool
  listening :: bool
  console :: "out list"
  logged :: "string list"

datatype err = Blocked | NoSuchGoroutine | Returned | Refused | Exited | Panic string

section \<open>Console output of the request dump\<close>

definition strings_Contains :: "string \<Rightarrow> string \<Rightarrow> bool" where
  "strings_Contains s substr = sublist substr s"

definition strings_Repeat :: "string \<Rightarrow> nat \<Rightarrow> string" where
  "strings_Repeat s n = concat (replicate n s)"

text \<open>Lines 124 to 140 of \<^verbatim>\<open>requestHandler\<close>.\<close>

definition dump_body :: "string \<Rightarrow> out list" where
  "dump_body b =
     (let bodyLen = length b in
      if bodyLen > 0 \<and> bodyLen \<le> 1024 then [Printf ''Body:        %s\<newline>'' [S b]]
      else if bodyLen > 1024 then
        [Printf ''Body:        [%d bytes - too large to display]\<newline>'' [D (int bodyLen)]]
      else [])"

definition dump :: "Request \<Rightarrow> out list" where
  "dump r =
     [Println (strings_Repeat ''-'' 50),
      Printf ''REQUEST DUMP\<newline>'' [],
      Printf ''Method:      %s\<newline>'' [S (Method r)],
      Printf ''Path:        %s\<newline>'' [S (Path r)],
      Printf ''Remote Addr: %s\<newline>'' [S (RemoteAddr r)],
      Printf ''Headers:\<newline>'' []]
     @ map (\<lambda>(key, val). Printf ''  %s: %s\<newline>'' [S key, S val]) (Header r)
     @ [Printf ''Body Size:   %d bytes\<newline>'' [D (int (length (Body r)))]]
     @ dump_body (Body r)
     @ [Println (strings_Repeat ''-'' 50)]"

text \<open>
  The text a call writes, for the verbs of \<^verbatim>\<open>main.go\<close>: \<^verbatim>\<open>%s\<close>, \<^verbatim>\<open>%d\<close>, \<^verbatim>\<open>%%\<close>, \<^verbatim>\<open>%.2f\<close> and \<^verbatim>\<open>%.1f\<close>
  (a fixed number of decimals) and \<^verbatim>\<open>%-8s\<close> (padded with spaces on the right).
\<close>

fun digit :: "nat \<Rightarrow> char" where
  "digit n = char_of (48 + n)"

function decimal :: "nat \<Rightarrow> string" where
  "decimal n = (if n < 10 then [digit n] else decimal (n div 10) @ [digit (n mod 10)])"
  by pat_completeness auto
termination
  by (relation "measure id") auto

declare decimal.simps [simp del]

definition itoa :: "int \<Rightarrow> string" where
  "itoa k = (if k < 0 then CHR ''-'' # decimal (nat (- k)) else decimal (nat k))"

text \<open>
  \<open>n\<close> units of the last of \<open>prec\<close> decimal places, and a \<^verbatim>\<open>float64\<close> with \<open>prec\<close> decimals:
  the nearest such number, the even one of two that are equally near.
\<close>

definition fixed_digits :: "nat \<Rightarrow> int \<Rightarrow> string" where
  "fixed_digits prec n =
     (let whole = decimal (nat (n div 10 ^ prec));
          frac = decimal (nat (n mod 10 ^ prec))
      in if prec = 0 then whole
         else whole @ ''.'' @ replicate (prec - length frac) CHR ''0'' @ frac)"

fun format_float :: "nat \<Rightarrow> float64 \<Rightarrow> string" where
  "format_float prec (Finite s a) =
     (if s then ''-'' else []) @ fixed_digits prec (round_half_even (a * 10 ^ prec))"
| "format_float prec (Infinite s) = (if s then ''-Inf'' else ''+Inf'')"
| "format_float prec NaN = ''NaN''"

definition is_digit :: "char \<Rightarrow> bool" where
  "is_digit c = ((48 :: nat) \<le> of_char c \<and> of_char c \<le> (57 :: nat))"

definition digit_val :: "char \<Rightarrow> nat" where
  "digit_val c = of_char c - 48"

fun sprintf :: "string \<Rightarrow> fmt_arg list \<Rightarrow> string option" where
  "sprintf [] args = Some []"
| "sprintf [c] args = (if c = CHR ''%'' then None else Some [c])"
| "sprintf (c # v # fmt) args =
     (if c \<noteq> CHR ''%'' then map_option ((#) c) (sprintf (v # fmt) args)
      else if v = CHR ''%'' then map_option ((#) CHR ''%'') (sprintf fmt args)
      else if v = CHR ''.'' then
        (case fmt of
           p # f # fmt' \<Rightarrow>
             (case args of
                F e # rest \<Rightarrow>
                  if f = CHR ''f'' \<and> is_digit p
                  then map_option ((@) (format_float (digit_val p) (f64_val e))) (sprintf fmt' rest)
                  else None
              | _ \<Rightarrow> None)
         | _ \<Rightarrow> None)
      else if v = CHR ''-'' then
        (case fmt of
           w # f # fmt' \<Rightarrow>
             (case args of
                S x # rest \<Rightarrow>
                  if f = CHR ''s'' \<and> is_digit w
                  then map_option ((@) (x @ replicate (digit_val w - length x) CHR '' ''))
                         (sprintf fmt' rest)
                  else None
              | _ \<Rightarrow> None)
         | _ \<Rightarrow> None)
      else (case args of
              S x # rest \<Rightarrow> if v = CHR ''s'' then map_option ((@) x) (sprintf fmt rest) else None
            | D k # rest \<Rightarrow> if v = CHR ''d'' then map_option ((@) (itoa k)) (sprintf fmt rest) else None
            | _ \<Rightarrow> None))"

fun render :: "out \<Rightarrow> string option" where
  "render (Println x) = Some (x @ ''\<newline>'')"
| "render (Printf fmt args) = sprintf fmt args"

section \<open>The report of \<^verbatim>\<open>displayMetrics\<close>\<close>

definition displayMetrics :: "Metrics \<Rightarrow> int64 list \<Rightarrow> out list" where
  "displayMetrics m hp =
     (let totalReqs = totalRequests m;
          totalBodySize = totalBodySize m;
          droppedBodies = droppedBodies m
      in
      [Println (''\<newline>'' @ strings_Repeat ''='' 50),
       Println ''SERVER METRICS'',
       Println (strings_Repeat ''='' 50),
       Printf ''Total Requests:     %d\<newline>'' [D (sint totalReqs)],
       Printf ''Total Body Size:    %d bytes (%.2f MB)\<newline>''
         [D (sint totalBodySize), F (Div (OfInt64 totalBodySize) (Const (1024 * 1024)))]]
      @ (if 0 <s totalBodySize then
           [Printf ''Average Body Size:  %.2f KB\<newline>''
              [F (Div (Div (OfInt64 totalBodySize) (OfInt64 totalReqs)) (Const 1024))]]
         else [Printf ''Average Body Size:  0 KB (no request bodies)\<newline>'' []])
      @ [Printf ''Dropped Bodies:     %d'' [D (sint droppedBodies)]]
      @ (if 0 <s droppedBodies then
           [Printf '' (%.2f%% of requests)''
              [F (Mul (Div (OfInt64 droppedBodies) (OfInt64 totalReqs)) (Const 100))]]
         else [])
      @ [Println [], Println ''\<newline>Requests by Method:'']
      @ map (\<lambda>(method, counter).
               let count = hp ! counter in
               Printf ''  %-8s %d (%.1f%%)\<newline>''
                 [S method, D (sint count),
                  F (Mul (Div (OfInt64 count) (OfInt64 totalReqs)) (Const 100))])
          (methodCounts m)
      @ [Println (strings_Repeat ''='' 50)])"

section \<open>Channel operations\<close>

text \<open>
  The send of the \<^verbatim>\<open>select\<close> with a \<^verbatim>\<open>default\<close> case (line 151) never blocks: on a closed
  channel it panics, a parked receiver gets the item directly, otherwise the item goes
  into the buffer if there is room, and the send fails if there is none.
\<close>

definition chansend :: "RequestBody \<Rightarrow> sys \<Rightarrow> err + (bool \<times> sys)" where
  "chansend rb s =
     (let c = bodyQueue s in
      if chan_closed c then Inl (Panic ''send on closed channel'')
      else case recvq c of
             j # q \<Rightarrow>
               Inr (True, s\<lparr>workers := (workers s)[j := W169 rb], bodyQueue := c\<lparr>recvq := q\<rparr>\<rparr>)
           | [] \<Rightarrow>
               if length (buf c) < cap c then Inr (True, s\<lparr>bodyQueue := c\<lparr>buf := buf c @ [rb]\<rparr>\<rparr>)
               else Inr (False, s))"

text \<open>The runtime's own notion of a full channel: a send would have to wait.\<close>

definition full :: "chan \<Rightarrow> bool" where
  "full c = (if cap c = 0 then recvq c = [] else length (buf c) = cap c)"

text \<open>
  The receive of \<^verbatim>\<open>for rb := range bodyQueue\<close> by worker \<open>j\<close>: it takes the oldest item, ends
  the loop on a closed and empty channel, and parks otherwise.
\<close>

definition chanrecv :: "nat \<Rightarrow> sys \<Rightarrow> wpc \<times> sys" where
  "chanrecv j s =
     (let c = bodyQueue s in
      case buf c of
        rb # rest \<Rightarrow> (W169 rb, s\<lparr>bodyQueue := c\<lparr>buf := rest\<rparr>\<rparr>)
      | [] \<Rightarrow>
          if chan_closed c then (W164, s)
          else (W166_parked, s\<lparr>bodyQueue := c\<lparr>recvq := recvq c @ [j]\<rparr>\<rparr>))"

text \<open>\<^verbatim>\<open>close\<close> wakes every parked receiver; its loop ends.\<close>

definition wake :: "nat list \<Rightarrow> wpc list \<Rightarrow> wpc list" where
  "wake q ws = fold (\<lambda>j ws'. ws'[j := W164]) q ws"

definition closechan :: "sys \<Rightarrow> err + sys" where
  "closechan s =
     (let c = bodyQueue s in
      if chan_closed c then Inl (Panic ''close of closed channel'')
      else Inr (s\<lparr>workers := wake (recvq c) (workers s),
                 bodyQueue := c\<lparr>chan_closed := True, recvq := []\<rparr>\<rparr>))"

section \<open>The goroutines\<close>

text \<open>
  \<^verbatim>\<open>incrementMethodCount\<close>, one atomic operation per step. \<^verbatim>\<open>RLock\<close> waits while the write
  lock is held, \<^verbatim>\<open>Lock\<close> while any lock is held. Lines 182 and 183 (allocation of the new
  counter and its store into the map) are one step: the new object is private until it
  is stored.
\<close>

definition incrementMethodCount_step :: "handler \<Rightarrow> sys \<Rightarrow> err + (handler \<times> sys)" where
  "incrementMethodCount_step h s =
     (let m = metrics s; mu = methodCountsMux m; method = Method (ctx h) in
      case pc h of
        H174 \<Rightarrow>
          if writer mu then Inl Blocked
          else Inr (h\<lparr>pc := H175\<rparr>,
                    s\<lparr>metrics := m\<lparr>methodCountsMux := mu\<lparr>readers := readers mu + 1\<rparr>\<rparr>\<rparr>)
      | H175 \<Rightarrow>
          (let r = map_of (methodCounts m) method in
           Inr (h\<lparr>pc := H176, counter := r, exists_v := (r \<noteq> None)\<rparr>, s))
      | H176 \<Rightarrow>
          Inr (h\<lparr>pc := (if exists_v h then H188 else H179)\<rparr>,
               s\<lparr>metrics := m\<lparr>methodCountsMux := mu\<lparr>readers := readers mu - 1\<rparr>\<rparr>\<rparr>)
      | H179 \<Rightarrow>
          if writer mu \<or> readers mu > 0 then Inl Blocked
          else Inr (h\<lparr>pc := H181\<rparr>, s\<lparr>metrics := m\<lparr>methodCountsMux := mu\<lparr>writer := True\<rparr>\<rparr>\<rparr>)
      | H181 \<Rightarrow>
          (let r = map_of (methodCounts m) method in
           Inr (h\<lparr>pc := (if r \<noteq> None then H185 else H182), counter := r, exists_v := (r \<noteq> None)\<rparr>,
                s))
      | H182 \<Rightarrow>
          (let a = length (heap s) in
           Inr (h\<lparr>pc := H185, counter := Some a\<rparr>,
                s\<lparr>heap := heap s @ [0],
                  metrics := m\<lparr>methodCounts := AList.update method a (methodCounts m)\<rparr>\<rparr>))
      | H185 \<Rightarrow>
          Inr (h\<lparr>pc := H188\<rparr>, s\<lparr>metrics := m\<lparr>methodCountsMux := mu\<lparr>writer := False\<rparr>\<rparr>\<rparr>)
      | H188 \<Rightarrow>
          (case counter h of
             None \<Rightarrow> Inl (Panic ''nil pointer dereference'')
           | Some a \<Rightarrow> Inr (h\<lparr>pc := HRet\<rparr>, s\<lparr>heap := (heap s)[a := heap s ! a + 1]\<rparr>))
      | _ \<Rightarrow> Inl Returned)"

text \<open>
  \<^verbatim>\<open>requestHandler\<close>. The copy of the body is the same byte string. The last step is not
  in \<^verbatim>\<open>main.go\<close>: the handler returns and the HTTP server writes the response it finds in
  the context to the client.
\<close>

definition requestHandler_step :: "handler \<Rightarrow> sys \<Rightarrow> err + (handler \<times> sys)" where
  "requestHandler_step h s =
     (case pc h of
        H116 \<Rightarrow> Inr (h\<lparr>pc := H123, status := Some 200\<rparr>, s)
      | H123 \<Rightarrow>
          Inr (h\<lparr>pc := H144\<rparr>,
               if strings_Contains (Path (ctx h)) ''dump''
               then s\<lparr>console := console s @ dump (ctx h)\<rparr> else s)
      | H144 \<Rightarrow>
          (let bodyLen = length (Body (ctx h)) in
           if bodyLen > 0 then
             (case chansend \<lparr>body = Body (ctx h), method_v = Method (ctx h)\<rparr> s of
                Inl e \<Rightarrow> Inl e
              | Inr (sent, s') \<Rightarrow>
                  if sent then Inr (h\<lparr>pc := H159, pushed := Enqueued\<rparr>, s')
                  else Inr (h\<lparr>pc := H154, pushed := Rejected\<rparr>, s'))
           else Inr (h\<lparr>pc := H159\<rparr>, s))
      | H154 \<Rightarrow>
          Inr (h\<lparr>pc := H159\<rparr>,
               s\<lparr>metrics := (metrics s)\<lparr>droppedBodies := droppedBodies (metrics s) + 1\<rparr>\<rparr>)
      | H159 \<Rightarrow>
          Inr (h\<lparr>pc := H174\<rparr>,
               s\<lparr>metrics := (metrics s)\<lparr>totalRequests := totalRequests (metrics s) + 1\<rparr>\<rparr>)
      | HRet \<Rightarrow> Inr (h\<lparr>pc := HDone, replied := status h\<rparr>, s)
      | HDone \<Rightarrow> Inl Returned
      | _ \<Rightarrow> incrementMethodCount_step h s)"

definition handler_step :: "nat \<Rightarrow> sys \<Rightarrow> err + sys" where
  "handler_step i s =
     (if i < length (handlers s) then
        (case requestHandler_step (handlers s ! i) s of
           Inl e \<Rightarrow> Inl e
         | Inr (h', s') \<Rightarrow> Inr (s'\<lparr>handlers := (handlers s')[i := h']\<rparr>))
      else Inl NoSuchGoroutine)"

text \<open>\<^verbatim>\<open>worker\<close>: the receive, the atomic add of line 169, the deferred \<^verbatim>\<open>wg.Done()\<close>.\<close>

definition worker_step :: "nat \<Rightarrow> sys \<Rightarrow> err + sys" where
  "worker_step j s =
     (if j < length (workers s) then
        (case workers s ! j of
           W166 \<Rightarrow> (case chanrecv j s of (w', s') \<Rightarrow> Inr (s'\<lparr>workers := (workers s')[j := w']\<rparr>))
         | W166_parked \<Rightarrow> Inl Blocked
         | W169 rb \<Rightarrow>
             (let bodySize = (of_nat (length (body rb)) :: int64) in
              Inr (s\<lparr>metrics := (metrics s)\<lparr>totalBodySize := totalBodySize (metrics s) + bodySize\<rparr>,
                     workers := (workers s)[j := W166]\<rparr>))
         | W164 \<Rightarrow>
             if wg s = 0 then Inl (Panic ''sync: negative WaitGroup counter'')
             else Inr (s\<lparr>wg := wg s - 1, workers := (workers s)[j := WExited]\<rparr>)
         | WExited \<Rightarrow> Inl Returned)
      else Inl NoSuchGoroutine)"

text \<open>
  \<^verbatim>\<open>main\<close> from line 98 on. \<^verbatim>\<open>server.Shutdown()\<close> is library code; what is modelled is
  its contract: it closes the listener (line 102), then returns \<^verbatim>\<open>nil\<close> once no request is in
  flight (\<open>M102_wait\<close>), or it returns an error (\<open>shutdown_fails\<close>), which \<^verbatim>\<open>main\<close> logs before
  going on. \<^verbatim>\<open>displayMetrics\<close> is one step.
\<close>

definition main_step :: "sys \<Rightarrow> err + sys" where
  "main_step s =
     (case main_pc s of
        M98 \<Rightarrow>
          if sigChan s then
            Inr (s\<lparr>sigChan := False, main_pc := M102,
                   logged := logged s @ [''\<newline>Shutting down server...'']\<rparr>)
          else Inl Blocked
      | M102 \<Rightarrow> Inr (s\<lparr>listening := False, main_pc := M102_wait\<rparr>)
      | M102_wait \<Rightarrow>
          if \<forall>h \<in> set (handlers s). pc h = HDone then Inr (s\<lparr>main_pc := M107\<rparr>)
          else Inl Blocked
      | M107 \<Rightarrow>
          (case closechan s of Inl e \<Rightarrow> Inl e | Inr s' \<Rightarrow> Inr (s'\<lparr>main_pc := M108\<rparr>))
      | M108 \<Rightarrow> if wg s = 0 then Inr (s\<lparr>main_pc := M111\<rparr>) else Inl Blocked
      | M111 \<Rightarrow>
          Inr (s\<lparr>console := console s @ displayMetrics (metrics s) (heap s), main_pc := MExit\<rparr>)
      | MExit \<Rightarrow> Inl Exited)"

definition shutdown_fails :: "sys \<Rightarrow> err + sys" where
  "shutdown_fails s =
     (if main_pc s = M102 \<or> main_pc s = M102_wait then
        Inr (s\<lparr>main_pc := M107, logged := logged s @ [''Server shutdown error'']\<rparr>)
      else Inl Blocked)"

definition new_handler :: "Request \<Rightarrow> handler" where
  "new_handler r =
     \<lparr>ctx = r, pc = H116, status = None, counter = None, exists_v = False,
      pushed = NotTried, replied = None\<rparr>"

definition arrive :: "Request \<Rightarrow> sys \<Rightarrow> err + sys" where
  "arrive r s =
     (if listening s then Inr (s\<lparr>handlers := handlers s @ [new_handler r]\<rparr>) else Inl Refused)"

section \<open>Schedules\<close>

datatype action =
  Arrive Request | Handler nat | Worker nat | Signal | Main | ShutdownFails

text \<open>Nothing runs once \<^verbatim>\<open>main\<close> has returned.\<close>

definition step :: "sys \<Rightarrow> action \<Rightarrow> err + sys" where
  "step s a =
     (if main_pc s = MExit then Inl Exited
      else case a of
             Arrive r \<Rightarrow> arrive r s
           | Handler i \<Rightarrow> handler_step i s
           | Worker j \<Rightarrow> worker_step j s
           | Signal \<Rightarrow> Inr (s\<lparr>sigChan := True\<rparr>)
           | Main \<Rightarrow> main_step s
           | ShutdownFails \<Rightarrow> shutdown_fails s)"

fun run :: "sys \<Rightarrow> action list \<Rightarrow> err + sys" where
  "run s [] = Inr s"
| "run s (a # as) = (case step s a of Inl e \<Rightarrow> Inl e | Inr s' \<Rightarrow> run s' as)"

text \<open>
  The state when \<^verbatim>\<open>main\<close> reaches line 98: the queue of the configured size, the workers
  started and counted in the wait group, the server listening.
\<close>

definition init :: "nat \<Rightarrow> nat \<Rightarrow> sys" where
  "init queueSize nworkers =
     \<lparr>metrics = \<lparr>totalRequests = 0, totalBodySize = 0, droppedBodies = 0, methodCounts = [],
                 methodCountsMux = \<lparr>readers = 0, writer = False\<rparr>\<rparr>,
      heap = [],
      bodyQueue = \<lparr>buf = [], cap = queueSize, chan_closed = False, recvq = []\<rparr>,
      handlers = [],
      workers = replicate nworkers W166,
      wg = nworkers,
      main_pc = M98,
      sigChan = False,
      listening = True,
      console = [],
      logged = []\<rparr>"

section \<open>Quiescence and the quantities the properties speak about\<close>

definition cnt :: "('a \<Rightarrow> bool) \<Rightarrow> 'a list \<Rightarrow> nat" where
  "cnt P xs = length (filter P xs)"

text \<open>The requests that arrived, in order of arrival.\<close>

fun requests :: "action list \<Rightarrow> Request list" where
  "requests [] = []"
| "requests (Arrive r # as) = r # requests as"
| "requests (a # as) = requests as"

text \<open>The handler has executed line 159, line 188, every line.\<close>

fun past159 :: "hpc \<Rightarrow> bool" where
  "past159 H116 = False"
| "past159 H123 = False"
| "past159 H144 = False"
| "past159 H154 = False"
| "past159 H159 = False"
| "past159 p = True"

fun past188 :: "hpc \<Rightarrow> bool" where
  "past188 HRet = True"
| "past188 HDone = True"
| "past188 p = False"

definition finished :: "handler \<Rightarrow> bool" where
  "finished h = past188 (pc h)"

text \<open>No invocation of \<^verbatim>\<open>requestHandler\<close> is in flight.\<close>

definition handlers_done :: "sys \<Rightarrow> bool" where
  "handlers_done s = (\<forall>h \<in> set (handlers s). finished h)"

fun holding :: "wpc \<Rightarrow> nat" where
  "holding (W169 rb) = length (body rb)"
| "holding w = 0"

fun idle :: "wpc \<Rightarrow> bool" where
  "idle (W169 rb) = False"
| "idle w = True"

text \<open>The queue is empty and no worker holds an item it has not added yet.\<close>

definition drained :: "sys \<Rightarrow> bool" where
  "drained s = (buf (bodyQueue s) = [] \<and> (\<forall>w \<in> set (workers s). idle w))"

definition queued_bytes :: "sys \<Rightarrow> nat" where
  "queued_bytes s = sum_list (map (\<lambda>rb. length (body rb)) (buf (bodyQueue s)))
                    + sum_list (map holding (workers s))"

definition enqueued_len :: "handler \<Rightarrow> nat" where
  "enqueued_len h = (if pushed h = Enqueued then length (Body (ctx h)) else 0)"

definition rejected_len :: "handler \<Rightarrow> nat" where
  "rejected_len h = (if pushed h = Rejected then length (Body (ctx h)) else 0)"

definition drop_counted :: "handler \<Rightarrow> bool" where
  "drop_counted h = (pushed h = Rejected \<and> pc h \<noteq> H154)"

text \<open>Every request that arrived has a body; no push was rejected.\<close>

definition with_bodies :: "action list \<Rightarrow> bool" where
  "with_bodies sched = (\<forall>r \<in> set (requests sched). Body r \<noteq> [])"

definition never_saturated :: "sys \<Rightarrow> bool" where
  "never_saturated s = (\<forall>h \<in> set (handlers s). pushed h \<noteq> Rejected)"

text \<open>The value of \<^verbatim>\<open>methodCounts[m]\<close>, if the entry exists.\<close>

definition method_count :: "sys \<Rightarrow> string \<Rightarrow> int64 option" where
  "method_count s m = map_option (\<lambda>a. heap s ! a) (map_of (methodCounts (metrics s)) m)"

definition sum_methodCounts :: "sys \<Rightarrow> int64" where
  "sum_methodCounts s = sum_list (map (\<lambda>(m, a). heap s ! a) (methodCounts (metrics s)))"

section \<open>Invariants\<close>

text \<open>What the program counter of a handler says about its history variable.\<close>

definition push_ok :: "handler \<Rightarrow> bool" where
  "push_ok h =
     (if pc h = H116 \<or> pc h = H123 \<or> pc h = H144 then pushed h = NotTried
      else if pc h = H154 then pushed h = Rejected \<and> Body (ctx h) \<noteq> []
      else (pushed h = NotTried) = (Body (ctx h) = []))"

text \<open>
  Accounting of requests, drops and bytes. The receivers in the channel's queue are
  parked workers, and a receiver parks only on an empty buffer.
\<close>

definition acct :: "sys \<Rightarrow> bool" where
  "acct s =
     (totalRequests (metrics s) = of_nat (cnt (\<lambda>h. past159 (pc h)) (handlers s)) \<and>
      droppedBodies (metrics s) = of_nat (cnt drop_counted (handlers s)) \<and>
      (\<exists>c. totalBodySize (metrics s) = of_nat c \<and>
           c + queued_bytes s = sum_list (map enqueued_len (handlers s))) \<and>
      (\<forall>h \<in> set (handlers s). push_ok h) \<and>
      distinct (recvq (bodyQueue s)) \<and>
      (\<forall>j \<in> set (recvq (bodyQueue s)). j < length (workers s) \<and> workers s ! j = W166_parked) \<and>
      (recvq (bodyQueue s) \<noteq> [] \<longrightarrow> buf (bodyQueue s) = []) \<and>
      length (buf (bodyQueue s)) \<le> cap (bodyQueue s))"

text \<open>The handler is between \<^verbatim>\<open>Lock\<close> and \<^verbatim>\<open>Unlock\<close>, between \<^verbatim>\<open>RLock\<close> and \<^verbatim>\<open>RUnlock\<close>.\<close>

definition in_write :: "handler \<Rightarrow> bool" where
  "in_write h = (pc h = H181 \<or> pc h = H182 \<or> pc h = H185)"

definition in_read :: "handler \<Rightarrow> bool" where
  "in_read h = (pc h = H175 \<or> pc h = H176)"

text \<open>What the locals \<^verbatim>\<open>counter\<close> and \<^verbatim>\<open>exists\<close> say about the map.\<close>

definition ptr_ok :: "(string \<times> nat) list \<Rightarrow> handler \<Rightarrow> bool" where
  "ptr_ok mc h =
     (if pc h = H176 then
        exists_v h \<longrightarrow> counter h \<noteq> None \<and> map_of mc (Method (ctx h)) = counter h
      else if pc h = H182 then map_of mc (Method (ctx h)) = None
      else if pc h = H185 \<or> pc h = H188 \<or> pc h = HRet \<or> pc h = HDone then
        counter h \<noteq> None \<and> map_of mc (Method (ctx h)) = counter h
      else True)"

text \<open>
  The mutex and the map: the write lock is held by exactly one handler or by none, no
  handler reads the map while the write lock is held, every key has its own counter
  object and every object belongs to a key, every object holds the number of handlers
  that have incremented it, and every key is the method of a request.
\<close>

definition registry :: "sys \<Rightarrow> bool" where
  "registry s =
     (let mc = methodCounts (metrics s); mu = methodCountsMux (metrics s) in
      cnt in_write (handlers s) = (if writer mu then 1 else 0) \<and>
      cnt in_read (handlers s) = readers mu \<and>
      (writer mu \<longrightarrow> readers mu = 0) \<and>
      (\<forall>h \<in> set (handlers s). ptr_ok mc h) \<and>
      distinct (map fst mc) \<and>
      map snd mc = [0..<length (heap s)] \<and>
      (\<forall>a < length (heap s).
         heap s ! a = of_nat (cnt (\<lambda>h. past188 (pc h) \<and> counter h = Some a) (handlers s))) \<and>
      (\<forall>m \<in> fst ` set mc. \<exists>h \<in> set (handlers s). Method (ctx h) = m))"

text \<open>The order of the shutdown sequence.\<close>

fun closed_by_main :: "mpc \<Rightarrow> bool" where
  "closed_by_main M108 = True"
| "closed_by_main M111 = True"
| "closed_by_main MExit = True"
| "closed_by_main p = False"

fun waited :: "mpc \<Rightarrow> bool" where
  "waited M111 = True"
| "waited MExit = True"
| "waited p = False"

fun shutdown_called :: "mpc \<Rightarrow> bool" where
  "shutdown_called M98 = False"
| "shutdown_called M102 = False"
| "shutdown_called p = True"

fun leaving :: "wpc \<Rightarrow> bool" where
  "leaving W164 = True"
| "leaving WExited = True"
| "leaving w = False"

definition lifecycle :: "sys \<Rightarrow> bool" where
  "lifecycle s =
     (chan_closed (bodyQueue s) = closed_by_main (main_pc s) \<and>
      wg s = cnt (\<lambda>w. w \<noteq> WExited) (workers s) \<and>
      (waited (main_pc s) \<longrightarrow> wg s = 0) \<and>
      ((\<exists>w \<in> set (workers s). leaving w) \<longrightarrow>
         chan_closed (bodyQueue s) \<and> buf (bodyQueue s) = []) \<and>
      (\<forall>j < length (workers s).
         workers s ! j = W166_parked \<longrightarrow> j \<in> set (recvq (bodyQueue s))) \<and>
      (chan_closed (bodyQueue s) \<longrightarrow> recvq (bodyQueue s) = []) \<and>
      (main_pc s \<noteq> M98 \<longrightarrow> ''\<newline>Shutting down server...'' \<in> set (logged s)) \<and>
      (shutdown_called (main_pc s) \<longrightarrow>
         \<not> listening s \<or> ''Server shutdown error'' \<in> set (logged s)) \<and>
      (main_pc s = MExit \<longrightarrow>
         (\<exists>before. console s = before @ displayMetrics (metrics s) (heap s))))"

text \<open>
  The status is stored by the first statement of the handler; the client has received a
  reply exactly when the handler has returned.
\<close>

definition reply_ok :: "handler \<Rightarrow> bool" where
  "reply_ok h =
     ((pc h \<noteq> H116 \<longrightarrow> status h = Some 200) \<and>
      (replied h = (if pc h = HDone then Some 200 else None)))"

definition inv :: "sys \<Rightarrow> bool" where
  "inv s = (acct s \<and> registry s \<and> lifecycle s \<and> (\<forall>h \<in> set (handlers s). reply_ok h))"

text \<open>
  What is left of the drain: three units per item in the buffer, and for every worker the
  number of steps it needs to leave once the buffer is empty.
\<close>

fun rank :: "wpc \<Rightarrow> nat" where
  "rank (W169 rb) = 3"
| "rank W166 = 2"
| "rank W166_parked = 2"
| "rank W164 = 1"
| "rank WExited = 0"

definition backlog :: "sys \<Rightarrow> nat" where
  "backlog s = 3 * length (buf (bodyQueue s)) + sum_list (map rank (workers s))"

text \<open>The number \<open>y\<close> lies between \<open>lo * x\<close> and \<open>hi * x\<close>.\<close>

definition bracket :: "rat \<Rightarrow> rat \<Rightarrow> rat \<Rightarrow> rat \<Rightarrow> bool" where
  "bracket lo hi x y = (lo * x \<le> y \<and> y \<le> hi * x)"

text \<open>
  \<^verbatim>\<open>server.Shutdown()\<close> has returned. When it returned without error, the listener is closed
  and no request is in flight.
\<close>

fun shutdown_returned :: "mpc \<Rightarrow> bool" where
  "shutdown_returned M98 = False"
| "shutdown_returned M102 = False"
| "shutdown_returned M102_wait = False"
| "shutdown_returned p = True"

definition graceful :: "sys \<Rightarrow> bool" where
  "graceful s =
     (shutdown_returned (main_pc s) \<and> ''Server shutdown error'' \<notin> set (logged s) \<longrightarrow>
        \<not> listening s \<and> (\<forall>h \<in> set (handlers s). pc h = HDone))"

section \<open>Concrete requests and schedules\<close>

definition dump_request :: "nat \<Rightarrow> Request" where
  "dump_request n =
     \<lparr>Method = ''POST'', Path = ''/dump'', RemoteAddr = ''127.0.0.1:4000'', Header = [],
      Body = replicate n CHR ''x''\<rparr>"

definition mixed_metrics :: Metrics where
  "mixed_metrics =
     \<lparr>totalRequests = 4, totalBodySize = 2048, droppedBodies = 1,
      methodCounts = [(''POST'', 0), (''GET'', 1)],
      methodCountsMux = \<lparr>readers = 0, writer = False\<rparr>\<rparr>"

definition bodyless_metrics :: Metrics where
  "bodyless_metrics =
     \<lparr>totalRequests = 2, totalBodySize = 0, droppedBodies = 0,
      methodCounts = [(''GET'', 0)],
      methodCountsMux = \<lparr>readers = 0, writer = False\<rparr>\<rparr>"

definition health_request :: Request where
  "health_request =
     \<lparr>Method = ''GET'', Path = ''/health'', RemoteAddr = ''127.0.0.1:4000'', Header = [],
      Body = []\<rparr>"

definition post_request :: "string \<Rightarrow> Request" where
  "post_request b =
     \<lparr>Method = ''POST'', Path = ''/api/data'', RemoteAddr = ''127.0.0.1:4000'', Header = [],
      Body = b\<rparr>"

text \<open>
  Two requests with bodies are served one after the other, the second finds the counter
  of its method in the map; then the worker takes and adds both bodies.
\<close>

definition two_posts :: "action list" where
  "two_posts =
     [Arrive (post_request ''ab''), Arrive (post_request ''cde'')]
     @ replicate 13 (Handler 0) @ replicate 9 (Handler 1)
     @ [Worker 0, Worker 0, Worker 0, Worker 0]"

definition after_two_posts :: sys where
  "after_two_posts = projr (run (init 2 1) two_posts)"

text \<open>
  Three requests, two methods, a queue of capacity 1 and no worker: the second body is
  dropped.
\<close>

definition three_requests :: "action list" where
  "three_requests =
     [Arrive (post_request ''ab''), Arrive (post_request ''cde''), Arrive health_request]
     @ replicate 13 (Handler 0) @ replicate 10 (Handler 1) @ replicate 13 (Handler 2)"

definition after_three_requests :: sys where
  "after_three_requests = projr (run (init 1 0) three_requests)"

text \<open>
  A queue of capacity 1 and one worker: the first body is buffered, the second is
  rejected while the first is still in the buffer, the third is buffered after the worker
  has taken the first.
\<close>

definition saturating_prefix :: "action list" where
  "saturating_prefix =
     [Arrive (post_request ''ab''), Arrive (post_request ''cde''), Arrive (post_request ''f'')]
     @ replicate 13 (Handler 0) @ [Handler 1, Handler 1]"

definition saturating :: "action list" where
  "saturating =
     saturating_prefix @ replicate 8 (Handler 1) @ [Worker 0, Worker 0]
     @ replicate 9 (Handler 2) @ [Worker 0, Worker 0]"

definition before_push :: sys where
  "before_push = projr (run (init 1 1) saturating_prefix)"

definition before_drop_count :: sys where
  "before_drop_count = projr (run (init 1 1) (saturating_prefix @ [Handler 1]))"

definition after_saturating :: sys where
  "after_saturating = projr (run (init 1 1) saturating)"

text \<open>
  A full run: one request is served and its body consumed, the worker parks, the signal
  arrives, the listener is shut down, the queue is closed, the worker leaves, the report
  is printed.
\<close>

definition full_run :: "action list" where
  "full_run =
     [Arrive (post_request ''ab'')] @ replicate 13 (Handler 0)
     @ [Worker 0, Worker 0, Worker 0, Signal, Main, Main, Main, Main, Worker 0, Main, Main]"

definition after_full_run :: sys where
  "after_full_run = projr (run (init 1 1) full_run)"

text \<open>The same up to the call of \<^verbatim>\<open>server.Shutdown()\<close>, which fails.\<close>

definition failing_shutdown :: "action list" where
  "failing_shutdown =
     [Arrive (post_request ''ab'')] @ replicate 13 (Handler 0)
     @ [Worker 0, Worker 0, Worker 0, Signal, Main]"

definition at_shutdown :: sys where
  "at_shutdown = projr (run (init 1 1) failing_shutdown)"

text \<open>The queue is closed while one body is still in the buffer and the worker holds another.\<close>

definition closing_with_backlog :: "action list" where
  "closing_with_backlog =
     [Arrive (post_request ''ab''), Arrive (post_request ''cde'')]
     @ replicate 13 (Handler 0) @ [Worker 0] @ replicate 9 (Handler 1)
     @ [Signal, Main, Main, Main, Main]"

definition closed_with_backlog :: sys where
  "closed_with_backlog = projr (run (init 1 1) closing_with_backlog)"

text \<open>A request without body has arrived and nothing else has happened.\<close>

definition health_arrived :: sys where
  "health_arrived = projr (run (init 1 1) [Arrive health_request])"



text \<open>
  One request with a body of 384 bytes and four without body; then the same shutdown as
  in the full run. And the request with the body alone.
\<close>

definition bytes_384 :: "action list" where
  "bytes_384 =
     [Arrive (post_request (replicate 384 CHR ''x''))] @ replicate 13 (Handler 0)
     @ [Worker 0, Worker 0, Worker 0]"

definition shutdown_one_worker :: "action list" where
  "shutdown_one_worker = [Signal, Main, Main, Main, Main, Worker 0, Main, Main]"

definition five_requests :: "action list" where
  "five_requests =
     bytes_384
     @ [Arrive health_request, Arrive health_request, Arrive health_request,
        Arrive health_request]
     @ replicate 13 (Handler 1) @ replicate 9 (Handler 2) @ replicate 9 (Handler 3)
     @ replicate 9 (Handler 4)
     @ shutdown_one_worker"

definition after_five_requests :: sys where
  "after_five_requests = projr (run (init 1 1) five_requests)"

definition after_one_request :: sys where
  "after_one_request = projr (run (init 1 1) (bytes_384 @ shutdown_one_worker))"

text \<open>
  \<^verbatim>\<open>server.Shutdown()\<close> fails while a handler is between its push and line 159: the worker
  has added the body, the queue is closed, the worker leaves and the report is printed.
\<close>

definition early_report :: "action list" where
  "early_report =
     [Arrive (post_request ''ab''), Handler 0, Handler 0, Handler 0, Worker 0, Worker 0,
      Signal, Main, ShutdownFails, Main, Worker 0, Worker 0, Main, Main]"

definition after_early_report :: sys where
  "after_early_report = projr (run (init 1 1) early_report)"

text \<open>
  \<^verbatim>\<open>server.Shutdown()\<close> fails while a handler is about to push: the queue is closed under
  its hands.
\<close>

definition closing_before_push :: "action list" where
  "closing_before_push =
     [Arrive (post_request ''ab''), Handler 0, Handler 0, Signal, Main, ShutdownFails, Main]"

definition closed_before_push :: sys where
  "closed_before_push = projr (run (init 1 1) closing_before_push)"

section \<open>The steps, case by case\<close>

lemma requestHandler_step_cases [consumes 1, case_names L116 L123 L144_empty L144_handoff
    L144_buffer L144_full L154 L159 L174 L175 L176 L179 L181 L182 L185 L188 LRet]:
  assumes "requestHandler_step h s = Inr (h', s')"
  obtains
    (L116) "pc h = H116" "h' = h\<lparr>pc := H123, status := Some 200\<rparr>" "s' = s"
  | (L123) "pc h = H123" "h' = h\<lparr>pc := H144\<rparr>"
      "s' = (if strings_Contains (Path (ctx h)) ''dump''
             then s\<lparr>console := console s @ dump (ctx h)\<rparr> else s)"
  | (L144_empty) "pc h = H144" "Body (ctx h) = []" "h' = h\<lparr>pc := H159\<rparr>" "s' = s"
  | (L144_handoff) j q where "pc h = H144" "Body (ctx h) \<noteq> []"
      "\<not> chan_closed (bodyQueue s)" "recvq (bodyQueue s) = j # q"
      "h' = h\<lparr>pc := H159, pushed := Enqueued\<rparr>"
      "s' = s\<lparr>workers := (workers s)[j := W169 \<lparr>body = Body (ctx h), method_v = Method (ctx h)\<rparr>],
               bodyQueue := (bodyQueue s)\<lparr>recvq := q\<rparr>\<rparr>"
  | (L144_buffer) "pc h = H144" "Body (ctx h) \<noteq> []"
      "\<not> chan_closed (bodyQueue s)" "recvq (bodyQueue s) = []"
      "length (buf (bodyQueue s)) < cap (bodyQueue s)"
      "h' = h\<lparr>pc := H159, pushed := Enqueued\<rparr>"
      "s' = s\<lparr>bodyQueue := (bodyQueue s)
               \<lparr>buf := buf (bodyQueue s) @ [\<lparr>body = Body (ctx h), method_v = Method (ctx h)\<rparr>]\<rparr>\<rparr>"
  | (L144_full) "pc h = H144" "Body (ctx h) \<noteq> []"
      "\<not> chan_closed (bodyQueue s)" "recvq (bodyQueue s) = []"
      "\<not> length (buf (bodyQueue s)) < cap (bodyQueue s)"
      "h' = h\<lparr>pc := H154, pushed := Rejected\<rparr>" "s' = s"
  | (L154) "pc h = H154" "h' = h\<lparr>pc := H159\<rparr>"
      "s' = s\<lparr>metrics := (metrics s)\<lparr>droppedBodies := droppedBodies (metrics s) + 1\<rparr>\<rparr>"
  | (L159) "pc h = H159" "h' = h\<lparr>pc := H174\<rparr>"
      "s' = s\<lparr>metrics := (metrics s)\<lparr>totalRequests := totalRequests (metrics s) + 1\<rparr>\<rparr>"
  | (L174) "pc h = H174" "\<not> writer (methodCountsMux (metrics s))" "h' = h\<lparr>pc := H175\<rparr>"
      "s' = s\<lparr>metrics := (metrics s)\<lparr>methodCountsMux := (methodCountsMux (metrics s))
               \<lparr>readers := readers (methodCountsMux (metrics s)) + 1\<rparr>\<rparr>\<rparr>"
  | (L175) "pc h = H175"
      "h' = h\<lparr>pc := H176, counter := map_of (methodCounts (metrics s)) (Method (ctx h)),
               exists_v := (map_of (methodCounts (metrics s)) (Method (ctx h)) \<noteq> None)\<rparr>"
      "s' = s"
  | (L176) "pc h = H176" "h' = h\<lparr>pc := (if exists_v h then H188 else H179)\<rparr>"
      "s' = s\<lparr>metrics := (metrics s)\<lparr>methodCountsMux := (methodCountsMux (metrics s))
               \<lparr>readers := readers (methodCountsMux (metrics s)) - 1\<rparr>\<rparr>\<rparr>"
  | (L179) "pc h = H179" "\<not> writer (methodCountsMux (metrics s))"
      "readers (methodCountsMux (metrics s)) = 0" "h' = h\<lparr>pc := H181\<rparr>"
      "s' = s\<lparr>metrics := (metrics s)\<lparr>methodCountsMux := (methodCountsMux (metrics s))
               \<lparr>writer := True\<rparr>\<rparr>\<rparr>"
  | (L181) "pc h = H181"
      "h' = h\<lparr>pc := (if map_of (methodCounts (metrics s)) (Method (ctx h)) \<noteq> None
                      then H185 else H182),
               counter := map_of (methodCounts (metrics s)) (Method (ctx h)),
               exists_v := (map_of (methodCounts (metrics s)) (Method (ctx h)) \<noteq> None)\<rparr>"
      "s' = s"
  | (L182) "pc h = H182" "h' = h\<lparr>pc := H185, counter := Some (length (heap s))\<rparr>"
      "s' = s\<lparr>heap := heap s @ [0],
               metrics := (metrics s)\<lparr>methodCounts :=
                 AList.update (Method (ctx h)) (length (heap s)) (methodCounts (metrics s))\<rparr>\<rparr>"
  | (L185) "pc h = H185" "h' = h\<lparr>pc := H188\<rparr>"
      "s' = s\<lparr>metrics := (metrics s)\<lparr>methodCountsMux := (methodCountsMux (metrics s))
               \<lparr>writer := False\<rparr>\<rparr>\<rparr>"
  | (L188) a where "pc h = H188" "counter h = Some a" "h' = h\<lparr>pc := HRet\<rparr>"
      "s' = s\<lparr>heap := (heap s)[a := heap s ! a + 1]\<rparr>"
  | (LRet) "pc h = HRet" "h' = h\<lparr>pc := HDone, replied := status h\<rparr>" "s' = s"
proof -
  note defs = requestHandler_step_def incrementMethodCount_step_def Let_def
  show ?thesis
  proof (cases "pc h")
    case H116
    with assms show ?thesis by (intro L116) (auto simp: defs)
  next
    case H123
    with assms show ?thesis by (intro L123) (auto simp: defs)
  next
    case H144
    show ?thesis
    proof (cases "Body (ctx h) = []")
      case True
      with H144 assms show ?thesis by (intro L144_empty) (auto simp: defs)
    next
      case False
      with H144 assms have open_q: "\<not> chan_closed (bodyQueue s)"
        by (auto simp: defs chansend_def split: if_splits)
      show ?thesis
      proof (cases "recvq (bodyQueue s)")
        case (Cons j q)
        with H144 False open_q assms show ?thesis
          by (intro L144_handoff [of j q]) (auto simp: defs chansend_def)
      next
        case Nil
        show ?thesis
        proof (cases "length (buf (bodyQueue s)) < cap (bodyQueue s)")
          case True
          with Nil H144 False open_q assms show ?thesis
            by (intro L144_buffer) (auto simp: defs chansend_def)
        next
          case full: False
          with Nil H144 False open_q assms show ?thesis
            by (intro L144_full) (auto simp: defs chansend_def)
        qed
      qed
    qed
  next
    case H154
    with assms show ?thesis by (intro L154) (auto simp: defs)
  next
    case H159
    with assms show ?thesis by (intro L159) (auto simp: defs)
  next
    case H174
    with assms show ?thesis by (intro L174) (auto simp: defs split: if_splits)
  next
    case H175
    with assms show ?thesis by (intro L175) (auto simp: defs)
  next
    case H176
    with assms show ?thesis by (intro L176) (auto simp: defs)
  next
    case H179
    with assms show ?thesis by (intro L179) (auto simp: defs split: if_splits)
  next
    case H181
    with assms show ?thesis by (intro L181) (auto simp: defs)
  next
    case H182
    with assms show ?thesis by (intro L182) (auto simp: defs)
  next
    case H185
    with assms show ?thesis by (intro L185) (auto simp: defs)
  next
    case H188
    with assms obtain a where "counter h = Some a"
      by (cases "counter h") (auto simp: defs)
    with H188 assms show ?thesis by (intro L188 [of a]) (auto simp: defs)
  next
    case HRet
    with assms show ?thesis by (intro LRet) (auto simp: defs)
  next
    case HDone
    with assms show ?thesis by (auto simp: defs)
  qed
qed

lemma handler_step_cases [consumes 1, case_names step]:
  assumes "handler_step i s = Inr t"
  obtains h h' s' before after where
    "handlers s = before @ h # after" "i = length before"
    "requestHandler_step h s = Inr (h', s')"
    "t = s'\<lparr>handlers := before @ h' # after\<rparr>"
    "handlers s' = handlers s"
proof -
  from assms have i: "i < length (handlers s)"
    by (simp add: handler_step_def split: if_splits)
  from assms i obtain h' s' where
    st: "requestHandler_step (handlers s ! i) s = Inr (h', s')"
    and t: "t = s'\<lparr>handlers := (handlers s')[i := h']\<rparr>"
    by (auto simp: handler_step_def split: sum.splits)
  from st have same: "handlers s' = handlers s"
    by (cases rule: requestHandler_step_cases) (auto split: if_splits)
  have "handlers s = take i (handlers s) @ handlers s ! i # drop (Suc i) (handlers s)"
    using i by (simp add: id_take_nth_drop)
  moreover have "i = length (take i (handlers s))"
    using i by simp
  moreover have "t = s'\<lparr>handlers := take i (handlers s) @ h' # drop (Suc i) (handlers s)\<rparr>"
    using t same i by (simp add: upd_conv_take_nth_drop)
  ultimately show ?thesis
    using st same that by blast
qed

lemma worker_step_cases [consumes 1, case_names recv loop_end park add_size wg_done]:
  assumes "worker_step j s = Inr t"
  obtains
    (recv) rb rest where "j < length (workers s)" "workers s ! j = W166"
      "buf (bodyQueue s) = rb # rest"
      "t = s\<lparr>bodyQueue := (bodyQueue s)\<lparr>buf := rest\<rparr>, workers := (workers s)[j := W169 rb]\<rparr>"
  | (loop_end) "j < length (workers s)" "workers s ! j = W166" "buf (bodyQueue s) = []"
      "chan_closed (bodyQueue s)" "t = s\<lparr>workers := (workers s)[j := W164]\<rparr>"
  | (park) "j < length (workers s)" "workers s ! j = W166" "buf (bodyQueue s) = []"
      "\<not> chan_closed (bodyQueue s)"
      "t = s\<lparr>bodyQueue := (bodyQueue s)\<lparr>recvq := recvq (bodyQueue s) @ [j]\<rparr>,
              workers := (workers s)[j := W166_parked]\<rparr>"
  | (add_size) rb where "j < length (workers s)" "workers s ! j = W169 rb"
      "t = s\<lparr>metrics := (metrics s)
                \<lparr>totalBodySize := totalBodySize (metrics s) + of_nat (length (body rb))\<rparr>,
              workers := (workers s)[j := W166]\<rparr>"
  | (wg_done) "j < length (workers s)" "workers s ! j = W164" "wg s \<noteq> 0"
      "t = s\<lparr>wg := wg s - 1, workers := (workers s)[j := WExited]\<rparr>"
proof -
  from assms have j: "j < length (workers s)"
    by (simp add: worker_step_def split: if_splits)
  show ?thesis
  proof (cases "workers s ! j")
    case W166
    show ?thesis
    proof (cases "buf (bodyQueue s)")
      case (Cons rb rest)
      with W166 j assms show ?thesis
        by (intro recv [of rb rest]) (auto simp: worker_step_def chanrecv_def Let_def)
    next
      case Nil
      show ?thesis
      proof (cases "chan_closed (bodyQueue s)")
        case True
        with Nil W166 j assms show ?thesis
          by (intro loop_end) (auto simp: worker_step_def chanrecv_def Let_def)
      next
        case False
        with Nil W166 j assms show ?thesis
          by (intro park) (auto simp: worker_step_def chanrecv_def Let_def)
      qed
    qed
  next
    case W166_parked
    with j assms show ?thesis by (simp add: worker_step_def)
  next
    case (W169 rb)
    with j assms show ?thesis
      by (intro add_size [of rb]) (auto simp: worker_step_def Let_def)
  next
    case W164
    with j assms show ?thesis
      by (intro wg_done) (auto simp: worker_step_def split: if_splits)
  next
    case WExited
    with j assms show ?thesis by (simp add: worker_step_def)
  qed
qed

lemma main_step_cases [consumes 1, case_names signal shutdown idle close wait display]:
  assumes "main_step s = Inr t"
  obtains
    (signal) "main_pc s = M98" "sigChan s"
      "t = s\<lparr>sigChan := False, main_pc := M102,
              logged := logged s @ [''\<newline>Shutting down server...'']\<rparr>"
  | (shutdown) "main_pc s = M102" "t = s\<lparr>listening := False, main_pc := M102_wait\<rparr>"
  | (idle) "main_pc s = M102_wait" "\<forall>h \<in> set (handlers s). pc h = HDone"
      "t = s\<lparr>main_pc := M107\<rparr>"
  | (close) "main_pc s = M107" "\<not> chan_closed (bodyQueue s)"
      "t = s\<lparr>workers := wake (recvq (bodyQueue s)) (workers s),
              bodyQueue := (bodyQueue s)\<lparr>chan_closed := True, recvq := []\<rparr>,
              main_pc := M108\<rparr>"
  | (wait) "main_pc s = M108" "wg s = 0" "t = s\<lparr>main_pc := M111\<rparr>"
  | (display) "main_pc s = M111"
      "t = s\<lparr>console := console s @ displayMetrics (metrics s) (heap s), main_pc := MExit\<rparr>"
proof (cases "main_pc s")
  case M98
  with assms show ?thesis by (intro signal) (auto simp: main_step_def split: if_splits)
next
  case M102
  with assms show ?thesis by (intro shutdown) (auto simp: main_step_def)
next
  case M102_wait
  with assms show ?thesis by (intro idle) (auto simp: main_step_def split: if_splits)
next
  case M107
  with assms show ?thesis
    by (intro close) (auto simp: main_step_def closechan_def Let_def split: if_splits)
next
  case M108
  with assms show ?thesis by (intro wait) (auto simp: main_step_def split: if_splits)
next
  case M111
  with assms show ?thesis by (intro display) (auto simp: main_step_def)
next
  case MExit
  with assms show ?thesis by (simp add: main_step_def)
qed

lemma step_cases [consumes 1, case_names Arrive Handler Worker Signal Main ShutdownFails]:
  assumes "step s a = Inr t"
  obtains
    (Arrive) r where "a = Arrive r" "main_pc s \<noteq> MExit" "listening s"
      "t = s\<lparr>handlers := handlers s @ [new_handler r]\<rparr>"
  | (Handler) i where "a = Handler i" "main_pc s \<noteq> MExit" "handler_step i s = Inr t"
  | (Worker) j where "a = Worker j" "main_pc s \<noteq> MExit" "worker_step j s = Inr t"
  | (Signal) "a = Signal" "main_pc s \<noteq> MExit" "t = s\<lparr>sigChan := True\<rparr>"
  | (Main) "a = Main" "main_step s = Inr t"
  | (ShutdownFails) "a = ShutdownFails" "main_pc s = M102 \<or> main_pc s = M102_wait"
      "t = s\<lparr>main_pc := M107, logged := logged s @ [''Server shutdown error'']\<rparr>"
proof -
  from assms have live: "main_pc s \<noteq> MExit"
    by (auto simp: step_def)
  show ?thesis
  proof (cases a)
    case (Arrive r)
    with assms live show ?thesis
      by (intro that(1) [of r]) (auto simp: step_def arrive_def split: if_splits)
  next
    case (Handler i)
    with assms live show ?thesis
      by (intro that(2) [of i]) (auto simp: step_def)
  next
    case (Worker j)
    with assms live show ?thesis
      by (intro that(3) [of j]) (auto simp: step_def)
  next
    case Signal
    with assms live show ?thesis
      by (intro that(4)) (auto simp: step_def)
  next
    case Main
    with assms live show ?thesis
      by (intro that(5)) (auto simp: step_def)
  next
    case ShutdownFails
    with assms live show ?thesis
      by (intro that(6)) (auto simp: step_def shutdown_fails_def split: if_splits)
  qed
qed

section \<open>Counting\<close>

lemma cnt_Nil [simp]: "cnt P [] = 0"
  by (simp add: cnt_def)

lemma cnt_Cons [simp]: "cnt P (x # xs) = (if P x then Suc (cnt P xs) else cnt P xs)"
  by (simp add: cnt_def)

lemma cnt_append [simp]: "cnt P (xs @ ys) = cnt P xs + cnt P ys"
  by (simp add: cnt_def)

lemma cnt_le_length: "cnt P xs \<le> length xs"
  by (simp add: cnt_def)

lemma cnt_all: "(\<forall>x \<in> set xs. P x) \<Longrightarrow> cnt P xs = length xs"
  by (induction xs) auto

lemma cnt_none: "(\<forall>x \<in> set xs. \<not> P x) \<Longrightarrow> cnt P xs = 0"
  by (induction xs) auto

lemma cnt_zero_iff: "cnt P xs = 0 \<longleftrightarrow> (\<forall>x \<in> set xs. \<not> P x)"
  by (induction xs) auto

lemma cnt_cong: "(\<And>x. x \<in> set xs \<Longrightarrow> P x = Q x) \<Longrightarrow> cnt P xs = cnt Q xs"
  by (induction xs) auto

lemma cnt_mono: "(\<And>x. x \<in> set xs \<Longrightarrow> P x \<Longrightarrow> Q x) \<Longrightarrow> cnt P xs \<le> cnt Q xs"
  by (induction xs) auto

lemma cnt_update:
  "j < length xs \<Longrightarrow>
     cnt P (xs[j := y]) + (if P (xs ! j) then 1 else 0) = cnt P xs + (if P y then 1 else 0)"
proof (induction xs arbitrary: j)
  case Nil
  then show ?case by simp
next
  case (Cons x xs)
  then show ?case by (cases j) auto
qed

lemma sum_list_map_update:
  fixes f :: "'a \<Rightarrow> nat"
  shows "j < length xs \<Longrightarrow>
     sum_list (map f (xs[j := y])) + f (xs ! j) = sum_list (map f xs) + f y"
proof (induction xs arbitrary: j)
  case Nil
  then show ?case by simp
next
  case (Cons x xs)
  then show ?case by (cases j) auto
qed

text \<open>At most one element satisfies \<open>P\<close>, and it is the one in the middle.\<close>

lemma cnt_one_middle:
  "cnt P (before @ x # after) \<le> 1 \<Longrightarrow> P x \<Longrightarrow> y \<in> set before \<union> set after \<Longrightarrow> \<not> P y"
  by (auto simp: cnt_zero_iff split: if_splits)

section \<open>Reading an \<^verbatim>\<open>int64\<close> that has not wrapped around\<close>

lemma sint_of_nat_int64:
  assumes "n < 2 ^ 63"
  shows "sint (of_nat n :: int64) = int n"
proof -
  have "(of_nat n :: int64) = word_of_int (int n)"
    by simp
  then have "sint (of_nat n :: int64) = signed_take_bit 63 (int n)"
    by (simp only: Word.sint_sbintrunc') simp
  also have "\<dots> = int n"
    using assms by (intro signed_take_bit_int_eq_self) auto
  finally show ?thesis .
qed

section \<open>The accounting invariant\<close>

lemma acctI:
  assumes "totalRequests (metrics s) = of_nat (cnt (\<lambda>h. past159 (pc h)) (handlers s))"
    and "droppedBodies (metrics s) = of_nat (cnt drop_counted (handlers s))"
    and "totalBodySize (metrics s) = of_nat c"
    and "c + queued_bytes s = sum_list (map enqueued_len (handlers s))"
    and "\<forall>h \<in> set (handlers s). push_ok h"
    and "distinct (recvq (bodyQueue s))"
    and "\<forall>j \<in> set (recvq (bodyQueue s)). j < length (workers s) \<and> workers s ! j = W166_parked"
    and "recvq (bodyQueue s) \<noteq> [] \<longrightarrow> buf (bodyQueue s) = []"
    and "length (buf (bodyQueue s)) \<le> cap (bodyQueue s)"
  shows "acct s"
  unfolding acct_def using assms by blast

lemma acctE:
  assumes "acct s"
  obtains c where
    "totalRequests (metrics s) = of_nat (cnt (\<lambda>h. past159 (pc h)) (handlers s))"
    "droppedBodies (metrics s) = of_nat (cnt drop_counted (handlers s))"
    "totalBodySize (metrics s) = of_nat c"
    "c + queued_bytes s = sum_list (map enqueued_len (handlers s))"
    "\<forall>h \<in> set (handlers s). push_ok h"
    "distinct (recvq (bodyQueue s))"
    "\<forall>j \<in> set (recvq (bodyQueue s)). j < length (workers s) \<and> workers s ! j = W166_parked"
    "recvq (bodyQueue s) \<noteq> [] \<longrightarrow> buf (bodyQueue s) = []"
    "length (buf (bodyQueue s)) \<le> cap (bodyQueue s)"
  using assms unfolding acct_def by blast

lemma holding_replicate [simp]: "sum_list (map holding (replicate n W166)) = 0"
  by (induction n) auto

lemma acct_init: "acct (init q w)"
  by (rule acctI [where c = 0]) (simp_all add: init_def queued_bytes_def)

lemma acct_arrive:
  assumes "acct s"
  shows "acct (s\<lparr>handlers := handlers s @ [new_handler r]\<rparr>)"
  using assms
proof (rule acctE)
  fix c
  assume "totalRequests (metrics s) = of_nat (cnt (\<lambda>h. past159 (pc h)) (handlers s))"
    "droppedBodies (metrics s) = of_nat (cnt drop_counted (handlers s))"
    "totalBodySize (metrics s) = of_nat c"
    "c + queued_bytes s = sum_list (map enqueued_len (handlers s))"
    "\<forall>h \<in> set (handlers s). push_ok h"
    "distinct (recvq (bodyQueue s))"
    "\<forall>j \<in> set (recvq (bodyQueue s)). j < length (workers s) \<and> workers s ! j = W166_parked"
    "recvq (bodyQueue s) \<noteq> [] \<longrightarrow> buf (bodyQueue s) = []"
    "length (buf (bodyQueue s)) \<le> cap (bodyQueue s)"
  then show ?thesis
    by (intro acctI [where c = c])
       (simp_all add: new_handler_def queued_bytes_def push_ok_def enqueued_len_def
          drop_counted_def)
qed

text \<open>A step that touches neither the counters, nor the queue, nor the workers.\<close>

lemma acct_local:
  assumes "acct s" and hs: "handlers s = before @ h # after"
    and "metrics s' = metrics s \<or>
         (totalRequests (metrics s') = totalRequests (metrics s) \<and>
          totalBodySize (metrics s') = totalBodySize (metrics s) \<and>
          droppedBodies (metrics s') = droppedBodies (metrics s))"
    and "bodyQueue s' = bodyQueue s" "workers s' = workers s"
    and "past159 (pc h') = past159 (pc h)" "drop_counted h' = drop_counted h"
    and "enqueued_len h' = enqueued_len h" "push_ok h'"
  shows "acct (s'\<lparr>handlers := before @ h' # after\<rparr>)"
  using assms(1)
proof (rule acctE)
  fix c
  assume "totalRequests (metrics s) = of_nat (cnt (\<lambda>h. past159 (pc h)) (handlers s))"
    "droppedBodies (metrics s) = of_nat (cnt drop_counted (handlers s))"
    "totalBodySize (metrics s) = of_nat c"
    "c + queued_bytes s = sum_list (map enqueued_len (handlers s))"
    "\<forall>h \<in> set (handlers s). push_ok h"
    "distinct (recvq (bodyQueue s))"
    "\<forall>j \<in> set (recvq (bodyQueue s)). j < length (workers s) \<and> workers s ! j = W166_parked"
    "recvq (bodyQueue s) \<noteq> [] \<longrightarrow> buf (bodyQueue s) = []"
    "length (buf (bodyQueue s)) \<le> cap (bodyQueue s)"
  with assms(2-) show ?thesis
    by (intro acctI [where c = c]) (auto simp: queued_bytes_def)
qed

lemma acct_handler:
  assumes "acct s" "handler_step i s = Inr t"
  shows "acct t"
  using assms(2)
proof (cases rule: handler_step_cases)
  case (step h h' s' before after)
  note hs = \<open>handlers s = before @ h # after\<close>
  note t = \<open>t = s'\<lparr>handlers := before @ h' # after\<rparr>\<close>
  from assms(1) hs have ok: "push_ok h"
    by (simp add: acct_def)
  note loc = acct_local [OF assms(1) hs, of s' h', folded t]
  from assms(1) obtain c where c:
    "totalRequests (metrics s) = of_nat (cnt (\<lambda>h. past159 (pc h)) (handlers s))"
    "droppedBodies (metrics s) = of_nat (cnt drop_counted (handlers s))"
    "totalBodySize (metrics s) = of_nat c"
    "c + queued_bytes s = sum_list (map enqueued_len (handlers s))"
    "\<forall>h \<in> set (handlers s). push_ok h"
    "distinct (recvq (bodyQueue s))"
    "\<forall>j \<in> set (recvq (bodyQueue s)). j < length (workers s) \<and> workers s ! j = W166_parked"
    "recvq (bodyQueue s) \<noteq> [] \<longrightarrow> buf (bodyQueue s) = []"
    "length (buf (bodyQueue s)) \<le> cap (bodyQueue s)"
    by (rule acctE)
  from step(3) show ?thesis
  proof (cases rule: requestHandler_step_cases)
    case L116
    with ok show ?thesis
      by (intro loc) (simp_all add: push_ok_def enqueued_len_def drop_counted_def)
  next
    case L123
    with ok show ?thesis
      by (intro loc) (simp_all add: push_ok_def enqueued_len_def drop_counted_def)
  next
    case L144_empty
    with ok show ?thesis
      by (intro loc) (simp_all add: push_ok_def enqueued_len_def drop_counted_def)
  next
    case (L144_handoff j q)
    from c L144_handoff have j: "j < length (workers s)" "workers s ! j = W166_parked"
      "j \<notin> set q" "distinct q" "buf (bodyQueue s) = []"
      by auto
    have hold: "sum_list (map holding ((workers s)[j := W169 \<lparr>body = Body (ctx h), method_v = Method (ctx h)\<rparr>]))
        = sum_list (map holding (workers s)) + length (Body (ctx h))"
      using sum_list_map_update [of j "workers s" holding "W169 \<lparr>body = Body (ctx h), method_v = Method (ctx h)\<rparr>"] j
      by simp
    have parked: "\<forall>k \<in> set q. k < length (workers s) \<and>
        (workers s)[j := W169 \<lparr>body = Body (ctx h), method_v = Method (ctx h)\<rparr>] ! k = W166_parked"
      using c(7) L144_handoff j by (auto simp: nth_list_update)
    show ?thesis
      unfolding t
    proof (rule acctI [where c = c])
      show "c + queued_bytes (s'\<lparr>handlers := before @ h' # after\<rparr>)
          = sum_list (map enqueued_len (handlers (s'\<lparr>handlers := before @ h' # after\<rparr>)))"
        using c(4) hs L144_handoff ok hold
        by (simp add: queued_bytes_def enqueued_len_def push_ok_def)
    qed (use c hs ok L144_handoff j parked in \<open>simp_all add: push_ok_def drop_counted_def\<close>)
  next
    case L144_buffer
    show ?thesis
      unfolding t
    proof (rule acctI [where c = c])
      show "c + queued_bytes (s'\<lparr>handlers := before @ h' # after\<rparr>)
          = sum_list (map enqueued_len (handlers (s'\<lparr>handlers := before @ h' # after\<rparr>)))"
        using c(4) hs L144_buffer ok
        by (simp add: queued_bytes_def enqueued_len_def push_ok_def)
    qed (use c hs ok L144_buffer in \<open>simp_all add: push_ok_def drop_counted_def\<close>)
  next
    case L144_full
    with ok show ?thesis
      by (intro loc) (simp_all add: push_ok_def enqueued_len_def drop_counted_def)
  next
    case L154
    show ?thesis
      unfolding t
      by (rule acctI [where c = c])
         (use c hs ok L154 in \<open>simp_all add: push_ok_def drop_counted_def enqueued_len_def
            queued_bytes_def\<close>)
  next
    case L159
    show ?thesis
      unfolding t
      by (rule acctI [where c = c])
         (use c hs ok L159 in \<open>simp_all add: push_ok_def drop_counted_def enqueued_len_def
            queued_bytes_def\<close>)
  next
    case L174
    with ok show ?thesis
      by (intro loc) (simp_all add: push_ok_def enqueued_len_def drop_counted_def)
  next
    case L175
    with ok show ?thesis
      by (intro loc) (simp_all add: push_ok_def enqueued_len_def drop_counted_def)
  next
    case L176
    with ok show ?thesis
      by (intro loc) (simp_all add: push_ok_def enqueued_len_def drop_counted_def)
  next
    case L179
    with ok show ?thesis
      by (intro loc) (simp_all add: push_ok_def enqueued_len_def drop_counted_def)
  next
    case L181
    with ok show ?thesis
      by (intro loc) (simp_all add: push_ok_def enqueued_len_def drop_counted_def)
  next
    case L182
    with ok show ?thesis
      by (intro loc) (simp_all add: push_ok_def enqueued_len_def drop_counted_def)
  next
    case L185
    with ok show ?thesis
      by (intro loc) (simp_all add: push_ok_def enqueued_len_def drop_counted_def)
  next
    case (L188 a)
    with ok show ?thesis
      by (intro loc) (simp_all add: push_ok_def enqueued_len_def drop_counted_def)
  next
    case LRet
    with ok show ?thesis
      by (intro loc) (simp_all add: push_ok_def enqueued_len_def drop_counted_def)
  qed
qed

lemma wake_length [simp]: "length (wake q ws) = length ws"
  unfolding wake_def by (induction q arbitrary: ws) auto

lemma wake_nth:
  "k < length ws \<Longrightarrow> wake q ws ! k = (if k \<in> set q then W164 else ws ! k)"
  unfolding wake_def by (induction q arbitrary: ws) (auto simp: nth_list_update)

lemma wake_holding:
  assumes "\<forall>j \<in> set q. j < length ws \<and> ws ! j = W166_parked"
  shows "map holding (wake q ws) = map holding ws"
proof (rule nth_equalityI)
  show "length (map holding (wake q ws)) = length (map holding ws)"
    by simp
next
  fix k
  assume "k < length (map holding (wake q ws))"
  then have k: "k < length ws" by simp
  then show "map holding (wake q ws) ! k = map holding ws ! k"
    using assms by (auto simp: wake_nth)
qed

text \<open>A worker that changes its own state and, possibly, the byte counter.\<close>

lemma acct_worker_update:
  assumes "acct s" and j: "j < length (workers s)"
    and t: "t = s\<lparr>metrics := (metrics s)\<lparr>totalBodySize := totalBodySize (metrics s) + of_nat d\<rparr>,
                  bodyQueue := (bodyQueue s)\<lparr>buf := b, recvq := rq\<rparr>,
                  workers := (workers s)[j := w], wg := g\<rparr>"
    and bytes: "d + sum_list (map (\<lambda>rb. length (body rb)) b) + holding w
                = sum_list (map (\<lambda>rb. length (body rb)) (buf (bodyQueue s))) + holding (workers s ! j)"
    and rq: "distinct rq"
      "\<forall>k \<in> set rq. k < length (workers s) \<and> (workers s)[j := w] ! k = W166_parked"
      "rq \<noteq> [] \<longrightarrow> b = []" "length b \<le> cap (bodyQueue s)"
  shows "acct t"
  using assms(1)
proof (rule acctE)
  fix c
  assume c: "totalRequests (metrics s) = of_nat (cnt (\<lambda>h. past159 (pc h)) (handlers s))"
    "droppedBodies (metrics s) = of_nat (cnt drop_counted (handlers s))"
    "totalBodySize (metrics s) = of_nat c"
    "c + queued_bytes s = sum_list (map enqueued_len (handlers s))"
    "\<forall>h \<in> set (handlers s). push_ok h"
  have "sum_list (map holding ((workers s)[j := w])) + holding (workers s ! j)
      = sum_list (map holding (workers s)) + holding w"
    using j by (rule sum_list_map_update)
  with bytes c(4) have "(c + d) + queued_bytes t = sum_list (map enqueued_len (handlers t))"
    by (simp add: t queued_bytes_def)
  then show ?thesis
    by (rule acctI [where c = "c + d", rotated 3]) (use c rq in \<open>simp_all add: t\<close>)
qed

lemma acct_worker:
  assumes "acct s" "worker_step j s = Inr t"
  shows "acct t"
  using assms(2)
proof (cases rule: worker_step_cases)
  case (recv rb rest)
  from assms(1) recv have "recvq (bodyQueue s) = []" "length (buf (bodyQueue s)) \<le> cap (bodyQueue s)"
    by (auto simp: acct_def)
  with recv show ?thesis
    by (intro acct_worker_update [OF assms(1), where j = j and t = t and d = 0 and b = rest
          and rq = "[]" and w = "W169 rb" and g = "wg s"]) simp_all
next
  case loop_end
  from assms(1) have "distinct (recvq (bodyQueue s))"
    "\<forall>k \<in> set (recvq (bodyQueue s)). k < length (workers s) \<and> workers s ! k = W166_parked"
    by (auto simp: acct_def)
  with loop_end show ?thesis
    by (intro acct_worker_update [OF assms(1), where j = j and t = t and d = 0 and b = "[]"
          and rq = "recvq (bodyQueue s)" and w = W164 and g = "wg s"])
       (auto simp: nth_list_update)
next
  case park
  from assms(1) have "distinct (recvq (bodyQueue s))"
    "\<forall>k \<in> set (recvq (bodyQueue s)). k < length (workers s) \<and> workers s ! k = W166_parked"
    by (auto simp: acct_def)
  with park show ?thesis
    by (intro acct_worker_update [OF assms(1), where j = j and t = t and d = 0 and b = "[]"
          and rq = "recvq (bodyQueue s) @ [j]" and w = W166_parked and g = "wg s"])
       (auto simp: nth_list_update)
next
  case (add_size rb)
  from assms(1) have "distinct (recvq (bodyQueue s))"
    "\<forall>k \<in> set (recvq (bodyQueue s)). k < length (workers s) \<and> workers s ! k = W166_parked"
    "recvq (bodyQueue s) \<noteq> [] \<longrightarrow> buf (bodyQueue s) = []"
    "length (buf (bodyQueue s)) \<le> cap (bodyQueue s)"
    by (auto simp: acct_def)
  with add_size show ?thesis
    by (intro acct_worker_update [OF assms(1), where j = j and t = t and d = "length (body rb)" and b = "buf (bodyQueue s)"
          and rq = "recvq (bodyQueue s)" and w = W166 and g = "wg s"])
       (auto simp: nth_list_update)
next
  case wg_done
  from assms(1) have "distinct (recvq (bodyQueue s))"
    "\<forall>k \<in> set (recvq (bodyQueue s)). k < length (workers s) \<and> workers s ! k = W166_parked"
    "recvq (bodyQueue s) \<noteq> [] \<longrightarrow> buf (bodyQueue s) = []"
    "length (buf (bodyQueue s)) \<le> cap (bodyQueue s)"
    by (auto simp: acct_def)
  with wg_done show ?thesis
    by (intro acct_worker_update [OF assms(1), where j = j and t = t and d = 0 and b = "buf (bodyQueue s)"
          and rq = "recvq (bodyQueue s)" and w = WExited and g = "wg s - 1"])
       (auto simp: nth_list_update)
qed

text \<open>Steps of \<^verbatim>\<open>main\<close> other than \<^verbatim>\<open>close\<close> leave everything the invariant reads alone.\<close>

lemma acct_frame:
  assumes "acct s" "metrics t = metrics s" "bodyQueue t = bodyQueue s"
    "handlers t = handlers s" "workers t = workers s"
  shows "acct t"
  using assms by (simp add: acct_def queued_bytes_def)

lemma acct_main:
  assumes "acct s" "main_step s = Inr t"
  shows "acct t"
  using assms(2)
proof (cases rule: main_step_cases)
  case close
  from assms(1) have "map holding (wake (recvq (bodyQueue s)) (workers s)) = map holding (workers s)"
    by (intro wake_holding) (simp add: acct_def)
  with assms(1) close show ?thesis
    by (simp add: acct_def queued_bytes_def)
qed (use assms(1) in \<open>auto intro: acct_frame\<close>)

lemma acct_step:
  assumes "acct s" "step s a = Inr t"
  shows "acct t"
  using assms(2)
proof (cases rule: step_cases)
  case (Arrive r)
  with assms(1) show ?thesis by (simp add: acct_arrive)
next
  case (Handler i)
  with assms(1) show ?thesis by (auto intro: acct_handler)
next
  case (Worker j)
  with assms(1) show ?thesis by (auto intro: acct_worker)
next
  case Signal
  with assms(1) show ?thesis by (auto intro: acct_frame)
next
  case Main
  with assms(1) show ?thesis by (auto intro: acct_main)
next
  case ShutdownFails
  with assms(1) show ?thesis by (auto intro: acct_frame)
qed

section \<open>The mutex and the map of counters\<close>

lemma registryI:
  assumes "cnt in_write (handlers s) = (if writer (methodCountsMux (metrics s)) then 1 else 0)"
    and "cnt in_read (handlers s) = readers (methodCountsMux (metrics s))"
    and "writer (methodCountsMux (metrics s)) \<longrightarrow> readers (methodCountsMux (metrics s)) = 0"
    and "\<forall>h \<in> set (handlers s). ptr_ok (methodCounts (metrics s)) h"
    and "distinct (map fst (methodCounts (metrics s)))"
    and "map snd (methodCounts (metrics s)) = [0..<length (heap s)]"
    and "\<forall>a < length (heap s).
           heap s ! a = of_nat (cnt (\<lambda>h. past188 (pc h) \<and> counter h = Some a) (handlers s))"
    and "\<forall>m \<in> fst ` set (methodCounts (metrics s)). \<exists>h \<in> set (handlers s). Method (ctx h) = m"
  shows "registry s"
  unfolding registry_def Let_def using assms by blast

lemma registryE:
  assumes "registry s"
  obtains
    "cnt in_write (handlers s) = (if writer (methodCountsMux (metrics s)) then 1 else 0)"
    "cnt in_read (handlers s) = readers (methodCountsMux (metrics s))"
    "writer (methodCountsMux (metrics s)) \<longrightarrow> readers (methodCountsMux (metrics s)) = 0"
    "\<forall>h \<in> set (handlers s). ptr_ok (methodCounts (metrics s)) h"
    "distinct (map fst (methodCounts (metrics s)))"
    "map snd (methodCounts (metrics s)) = [0..<length (heap s)]"
    "\<forall>a < length (heap s).
       heap s ! a = of_nat (cnt (\<lambda>h. past188 (pc h) \<and> counter h = Some a) (handlers s))"
    "\<forall>m \<in> fst ` set (methodCounts (metrics s)). \<exists>h \<in> set (handlers s). Method (ctx h) = m"
  using assms unfolding registry_def Let_def by blast

lemma registryD:
  assumes "registry s"
  shows "cnt in_write (handlers s) = (if writer (methodCountsMux (metrics s)) then 1 else 0)"
    and "cnt in_read (handlers s) = readers (methodCountsMux (metrics s))"
    and "writer (methodCountsMux (metrics s)) \<longrightarrow> readers (methodCountsMux (metrics s)) = 0"
    and "\<forall>h \<in> set (handlers s). ptr_ok (methodCounts (metrics s)) h"
    and "distinct (map fst (methodCounts (metrics s)))"
    and "map snd (methodCounts (metrics s)) = [0..<length (heap s)]"
    and "\<forall>a < length (heap s).
           heap s ! a = of_nat (cnt (\<lambda>h. past188 (pc h) \<and> counter h = Some a) (handlers s))"
    and "\<forall>m \<in> fst ` set (methodCounts (metrics s)). \<exists>h \<in> set (handlers s). Method (ctx h) = m"
  using assms unfolding registry_def Let_def by blast+

lemma keys_replace:
  assumes "\<forall>m \<in> fst ` set mc. \<exists>x \<in> set (before @ h # after). Method (ctx x) = m"
    and "ctx h' = ctx h"
  shows "\<forall>m \<in> fst ` set mc. \<exists>x \<in> set (before @ h' # after). Method (ctx x) = m"
proof
  fix m
  assume "m \<in> fst ` set mc"
  with assms(1) obtain x where x: "x \<in> set (before @ h # after)" "Method (ctx x) = m"
    by blast
  show "\<exists>x \<in> set (before @ h' # after). Method (ctx x) = m"
  proof (cases "x = h")
    case True
    with x assms(2) have "Method (ctx h') = m" by simp
    then show ?thesis by auto
  next
    case False
    with x show ?thesis by auto
  qed
qed

lemma registry_init: "registry (init q w)"
  by (rule registryI) (simp_all add: init_def)

lemma registry_arrive:
  assumes "registry s"
  shows "registry (s\<lparr>handlers := handlers s @ [new_handler r]\<rparr>)"
  using assms
  by (elim registryE, intro registryI)
     (auto simp: new_handler_def in_write_def in_read_def ptr_ok_def)

lemma registry_frame:
  assumes "registry s" "methodCounts (metrics t) = methodCounts (metrics s)"
    "methodCountsMux (metrics t) = methodCountsMux (metrics s)"
    "heap t = heap s" "handlers t = handlers s"
  shows "registry t"
  using assms by (simp add: registry_def)

text \<open>Storing under a key that is not in the map appends the entry.\<close>

lemma update_absent: "map_of al k = None \<Longrightarrow> AList.update k v al = al @ [(k, v)]"
  by (induction al) (auto split: if_splits)

lemma map_of_snoc:
  "map_of (al @ [(k, v)]) x =
     (case map_of al x of None \<Rightarrow> (if x = k then Some v else None) | Some a \<Rightarrow> Some a)"
  by (simp add: map_add_def split: option.splits)

lemma map_of_snd_range:
  "map_of al k = Some a \<Longrightarrow> map snd al = [0..<n] \<Longrightarrow> a < n"
proof -
  assume "map_of al k = Some a" and r: "map snd al = [0..<n]"
  then have "a \<in> set (map snd al)"
    by (metis map_of_SomeD set_zip_rightD zip_map_fst_snd)
  with r show ?thesis by simp
qed

text \<open>A handler step that touches neither the mutex, nor the map, nor the heap.\<close>

lemma registry_local:
  assumes "registry s" and hs: "handlers s = before @ h # after"
    and "methodCounts (metrics s') = methodCounts (metrics s)"
    and "methodCountsMux (metrics s') = methodCountsMux (metrics s)"
    and "heap s' = heap s"
    and "in_write h' = in_write h" "in_read h' = in_read h"
    and "ptr_ok (methodCounts (metrics s)) h'"
    and "past188 (pc h') = past188 (pc h)" "counter h' = counter h \<or> \<not> past188 (pc h)"
    and "ctx h' = ctx h"
  shows "registry (s'\<lparr>handlers := before @ h' # after\<rparr>)"
  using assms(1)
proof (rule registryE)
  assume "\<forall>m \<in> fst ` set (methodCounts (metrics s)). \<exists>h \<in> set (handlers s). Method (ctx h) = m"
  then have keys: "\<forall>m \<in> fst ` set (methodCounts (metrics s)).
      \<exists>x \<in> set (before @ h' # after). Method (ctx x) = m"
    unfolding hs using \<open>ctx h' = ctx h\<close> by (rule keys_replace)
  assume "cnt in_write (handlers s) = (if writer (methodCountsMux (metrics s)) then 1 else 0)"
    "cnt in_read (handlers s) = readers (methodCountsMux (metrics s))"
    "writer (methodCountsMux (metrics s)) \<longrightarrow> readers (methodCountsMux (metrics s)) = 0"
    "\<forall>h \<in> set (handlers s). ptr_ok (methodCounts (metrics s)) h"
    "distinct (map fst (methodCounts (metrics s)))"
    "map snd (methodCounts (metrics s)) = [0..<length (heap s)]"
    "\<forall>a < length (heap s).
       heap s ! a = of_nat (cnt (\<lambda>h. past188 (pc h) \<and> counter h = Some a) (handlers s))"
  with assms(2-) keys show ?thesis
    by (intro registryI) auto
qed

lemma registry_handler:
  assumes "registry s" "handler_step i s = Inr t"
  shows "registry t"
  using assms(2)
proof (cases rule: handler_step_cases)
  case (step h h' s' before after)
  note hs = \<open>handlers s = before @ h # after\<close>
  note t = \<open>t = s'\<lparr>handlers := before @ h' # after\<rparr>\<close>
  let ?mc = "methodCounts (metrics s)"
  let ?mu = "methodCountsMux (metrics s)"
  note r = registryD [OF assms(1)]
  from step(3) have same_ctx: "ctx h' = ctx h"
    by (cases rule: requestHandler_step_cases) auto
  from r(8) have keys: "\<forall>m \<in> fst ` set ?mc. \<exists>x \<in> set (before @ h' # after). Method (ctx x) = m"
    unfolding hs using same_ctx by (rule keys_replace)
  from r(4) hs have ok: "ptr_ok ?mc h" and others: "\<forall>x \<in> set before \<union> set after. ptr_ok ?mc x"
    by auto
  note loc = registry_local [OF assms(1) hs, of s' h', folded t]
  from step(3) show ?thesis
  proof (cases rule: requestHandler_step_cases)
    case L116
    then show ?thesis by (intro loc) (simp_all add: in_write_def in_read_def ptr_ok_def)
  next
    case L123
    then show ?thesis by (intro loc) (simp_all add: in_write_def in_read_def ptr_ok_def)
  next
    case L144_empty
    then show ?thesis by (intro loc) (simp_all add: in_write_def in_read_def ptr_ok_def)
  next
    case (L144_handoff j q)
    then show ?thesis by (intro loc) (simp_all add: in_write_def in_read_def ptr_ok_def)
  next
    case L144_buffer
    then show ?thesis by (intro loc) (simp_all add: in_write_def in_read_def ptr_ok_def)
  next
    case L144_full
    then show ?thesis by (intro loc) (simp_all add: in_write_def in_read_def ptr_ok_def)
  next
    case L154
    then show ?thesis by (intro loc) (simp_all add: in_write_def in_read_def ptr_ok_def)
  next
    case L159
    then show ?thesis by (intro loc) (simp_all add: in_write_def in_read_def ptr_ok_def)
  next
    case L174
    show ?thesis
      unfolding t
      by (rule registryI)
         (use r(1-7) keys hs others L174 in \<open>simp_all add: in_write_def in_read_def ptr_ok_def\<close>)
  next
    case L175
    with ok show ?thesis by (intro loc) (auto simp: in_write_def in_read_def ptr_ok_def)
  next
    case L176
    show ?thesis
      unfolding t
      by (rule registryI)
         (use r(1-7) keys hs ok others L176 in \<open>auto simp: in_write_def in_read_def ptr_ok_def\<close>)
  next
    case L179
    show ?thesis
      unfolding t
      by (rule registryI)
         (use r(1-7) keys hs others L179 in \<open>simp_all add: in_write_def in_read_def ptr_ok_def\<close>)
  next
    case L181
    with ok show ?thesis by (intro loc) (auto simp: in_write_def in_read_def ptr_ok_def)
  next
    case L182
    let ?m = "Method (ctx h)" and ?n = "length (heap s)"
    from ok L182 have absent: "map_of ?mc ?m = None"
      by (simp add: ptr_ok_def)
    then have mc': "methodCounts (metrics s') = ?mc @ [(?m, ?n)]"
      using L182 by (simp add: update_absent)
    have h_in: "in_write h"
      using L182 by (simp add: in_write_def)
    have excl: "\<not> in_write x" if "x \<in> set before \<union> set after" for x
    proof -
      have "cnt in_write (before @ h # after) \<le> 1"
        using r(1) hs by simp
      then show ?thesis using h_in that by (rule cnt_one_middle)
    qed
    have keep: "ptr_ok (?mc @ [(?m, ?n)]) x" if "x \<in> set before \<union> set after" for x
    proof -
      from that others have "ptr_ok ?mc x" by blast
      moreover from excl [OF that] have "pc x \<noteq> H182"
        by (simp add: in_write_def)
      ultimately show ?thesis
        by (auto simp del: map_of_append simp add: ptr_ok_def map_of_snoc split: if_splits)
    qed
    have own: "ptr_ok (?mc @ [(?m, ?n)]) h'"
      using L182 absent by (simp del: map_of_append add: ptr_ok_def map_of_snoc)
    have fresh: "\<not> (past188 (pc x) \<and> counter x = Some ?n)" if "x \<in> set (handlers s)" for x
    proof
      assume a: "past188 (pc x) \<and> counter x = Some ?n"
      then have "pc x = HRet \<or> pc x = HDone"
        by (cases "pc x") auto
      with that r(4) a have "map_of ?mc (Method (ctx x)) = Some ?n"
        by (auto simp: ptr_ok_def)
      then have "?n < ?n" using r(6) by (rule map_of_snd_range)
      then show False by simp
    qed
    then have zero: "cnt (\<lambda>x. past188 (pc x) \<and> counter x = Some ?n) (handlers s) = 0"
      by (simp add: cnt_zero_iff)
    show ?thesis
      unfolding t
    proof (rule registryI)
      show "\<forall>x \<in> set (handlers (s'\<lparr>handlers := before @ h' # after\<rparr>)).
              ptr_ok (methodCounts (metrics (s'\<lparr>handlers := before @ h' # after\<rparr>))) x"
        using keep own mc' by auto
      show "distinct (map fst (methodCounts (metrics (s'\<lparr>handlers := before @ h' # after\<rparr>))))"
        using r(5) absent mc' by (simp add: map_of_eq_None_iff)
      show "map snd (methodCounts (metrics (s'\<lparr>handlers := before @ h' # after\<rparr>)))
            = [0..<length (heap (s'\<lparr>handlers := before @ h' # after\<rparr>))]"
        using r(6) mc' L182 by simp
      show "\<forall>a < length (heap (s'\<lparr>handlers := before @ h' # after\<rparr>)).
              heap (s'\<lparr>handlers := before @ h' # after\<rparr>) ! a
              = of_nat (cnt (\<lambda>h. past188 (pc h) \<and> counter h = Some a)
                  (handlers (s'\<lparr>handlers := before @ h' # after\<rparr>)))"
      proof (intro allI impI)
        fix a
        assume "a < length (heap (s'\<lparr>handlers := before @ h' # after\<rparr>))"
        then have "a < ?n \<or> a = ?n"
          using L182 by auto
        then show "heap (s'\<lparr>handlers := before @ h' # after\<rparr>) ! a
              = of_nat (cnt (\<lambda>h. past188 (pc h) \<and> counter h = Some a)
                  (handlers (s'\<lparr>handlers := before @ h' # after\<rparr>)))"
        proof
          assume "a < ?n"
          with r(7) hs L182 show ?thesis by (simp add: nth_append)
        next
          assume "a = ?n"
          with zero hs L182 show ?thesis by (simp add: nth_append)
        qed
      qed
      show "\<forall>m \<in> fst ` set (methodCounts (metrics (s'\<lparr>handlers := before @ h' # after\<rparr>))).
              \<exists>x \<in> set (handlers (s'\<lparr>handlers := before @ h' # after\<rparr>)). Method (ctx x) = m"
        using keys mc' same_ctx by auto
    qed (use r(1-7) hs L182 in \<open>simp_all add: in_write_def in_read_def\<close>)
  next
    case L185
    show ?thesis
      unfolding t
      by (rule registryI)
         (use r(1-7) keys hs ok others L185 in \<open>auto simp: in_write_def in_read_def ptr_ok_def split: if_splits\<close>)
  next
    case (L188 a)
    from ok L188 have "map_of ?mc (Method (ctx h)) = Some a"
      by (simp add: ptr_ok_def)
    then have a: "a < length (heap s)"
      using r(6) by (rule map_of_snd_range)
    show ?thesis
      unfolding t
    proof (rule registryI)
      show "\<forall>b < length (heap (s'\<lparr>handlers := before @ h' # after\<rparr>)).
              heap (s'\<lparr>handlers := before @ h' # after\<rparr>) ! b
              = of_nat (cnt (\<lambda>h. past188 (pc h) \<and> counter h = Some b)
                  (handlers (s'\<lparr>handlers := before @ h' # after\<rparr>)))"
        using r(7) hs L188 a by (auto simp: nth_list_update)
    qed (use r(1-7) keys hs ok others L188 in \<open>auto simp: in_write_def in_read_def ptr_ok_def\<close>)
  next
    case LRet
    with ok show ?thesis by (intro loc) (auto simp: in_write_def in_read_def ptr_ok_def)
  qed
qed

lemma registry_step:
  assumes "registry s" "step s a = Inr t"
  shows "registry t"
  using assms(2)
proof (cases rule: step_cases)
  case (Arrive r)
  with assms(1) show ?thesis by (simp add: registry_arrive)
next
  case (Handler i)
  with assms(1) show ?thesis by (auto intro: registry_handler)
next
  case (Worker j)
  from Worker(3) show ?thesis
    by (cases rule: worker_step_cases) (use assms(1) in \<open>auto intro: registry_frame\<close>)
next
  case Signal
  with assms(1) show ?thesis by (auto intro: registry_frame)
next
  case Main
  from Main(2) show ?thesis
    by (cases rule: main_step_cases) (use assms(1) in \<open>auto intro: registry_frame\<close>)
next
  case ShutdownFails
  with assms(1) show ?thesis by (auto intro: registry_frame)
qed

section \<open>The shutdown sequence\<close>

lemma lifecycleI:
  assumes "chan_closed (bodyQueue s) = closed_by_main (main_pc s)"
    and "wg s = cnt (\<lambda>w. w \<noteq> WExited) (workers s)"
    and "waited (main_pc s) \<longrightarrow> wg s = 0"
    and "(\<exists>w \<in> set (workers s). leaving w) \<longrightarrow>
           chan_closed (bodyQueue s) \<and> buf (bodyQueue s) = []"
    and "\<forall>j < length (workers s).
           workers s ! j = W166_parked \<longrightarrow> j \<in> set (recvq (bodyQueue s))"
    and "chan_closed (bodyQueue s) \<longrightarrow> recvq (bodyQueue s) = []"
    and "main_pc s \<noteq> M98 \<longrightarrow> ''\<newline>Shutting down server...'' \<in> set (logged s)"
    and "shutdown_called (main_pc s) \<longrightarrow>
           \<not> listening s \<or> ''Server shutdown error'' \<in> set (logged s)"
    and "main_pc s = MExit \<longrightarrow>
           (\<exists>before. console s = before @ displayMetrics (metrics s) (heap s))"
  shows "lifecycle s"
  unfolding lifecycle_def using assms by blast

lemma lifecycleD:
  assumes "lifecycle s"
  shows "chan_closed (bodyQueue s) = closed_by_main (main_pc s)"
    and "wg s = cnt (\<lambda>w. w \<noteq> WExited) (workers s)"
    and "waited (main_pc s) \<longrightarrow> wg s = 0"
    and "(\<exists>w \<in> set (workers s). leaving w) \<longrightarrow>
           chan_closed (bodyQueue s) \<and> buf (bodyQueue s) = []"
    and "\<forall>j < length (workers s).
           workers s ! j = W166_parked \<longrightarrow> j \<in> set (recvq (bodyQueue s))"
    and "chan_closed (bodyQueue s) \<longrightarrow> recvq (bodyQueue s) = []"
    and "main_pc s \<noteq> M98 \<longrightarrow> ''\<newline>Shutting down server...'' \<in> set (logged s)"
    and "shutdown_called (main_pc s) \<longrightarrow>
           \<not> listening s \<or> ''Server shutdown error'' \<in> set (logged s)"
    and "main_pc s = MExit \<longrightarrow>
           (\<exists>before. console s = before @ displayMetrics (metrics s) (heap s))"
  using assms unfolding lifecycle_def by blast+

lemma cnt_replicate_W166 [simp]: "cnt (\<lambda>w. w \<noteq> WExited) (replicate n W166) = n"
  by (induction n) auto

lemma lifecycle_init: "lifecycle (init q w)"
  by (rule lifecycleI) (simp_all add: init_def)

text \<open>A step that leaves the queue, the workers and \<^verbatim>\<open>main\<close> alone, while \<^verbatim>\<open>main\<close> runs.\<close>

lemma lifecycle_frame:
  assumes "lifecycle s" "main_pc s \<noteq> MExit"
    "bodyQueue t = bodyQueue s" "workers t = workers s" "wg t = wg s" "main_pc t = main_pc s"
    "logged t = logged s" "listening t = listening s"
  shows "lifecycle t"
  using lifecycleD [OF assms(1)] assms(2-) by (intro lifecycleI) simp_all

lemma set_update_leaving:
  assumes "j < length ws" "\<not> leaving w" "\<forall>x \<in> set ws. \<not> leaving x"
  shows "\<forall>x \<in> set (ws[j := w]). \<not> leaving x"
  using assms by (metis insertE set_update_subset_insert subsetD)

lemma lifecycle_handler:
  assumes "lifecycle s" "acct s" "main_pc s \<noteq> MExit" "handler_step i s = Inr t"
  shows "lifecycle t"
  using assms(4)
proof (cases rule: handler_step_cases)
  case (step h h' s' before after)
  note t = \<open>t = s'\<lparr>handlers := before @ h' # after\<rparr>\<close>
  note lc = lifecycleD [OF assms(1)]
  note fr = lifecycle_frame [OF assms(1) assms(3)]
  from step(3) show ?thesis
  proof (cases rule: requestHandler_step_cases)
    case (L144_handoff j q)
    let ?w = "W169 \<lparr>body = Body (ctx h), method_v = Method (ctx h)\<rparr>"
    from assms(2) L144_handoff have j: "j < length (workers s)" "workers s ! j = W166_parked"
      by (auto simp: acct_def)
    from lc(1,4) L144_handoff have none: "\<forall>x \<in> set (workers s). \<not> leaving x"
      by auto
    have "cnt (\<lambda>w. w \<noteq> WExited) ((workers s)[j := ?w]) = cnt (\<lambda>w. w \<noteq> WExited) (workers s)"
      using cnt_update [of j "workers s" "\<lambda>w. w \<noteq> WExited" ?w] j by simp
    moreover have "\<forall>x \<in> set ((workers s)[j := ?w]). \<not> leaving x"
      using j(1) _ none by (rule set_update_leaving) simp
    moreover have "\<forall>k < length (workers s). (workers s)[j := ?w] ! k = W166_parked \<longrightarrow> k \<in> set q"
      using lc(5) L144_handoff j by (auto simp: nth_list_update split: if_splits)
    ultimately show ?thesis
      unfolding t using lc L144_handoff assms(3)
      by (intro lifecycleI) simp_all
  next
    case L144_buffer
    from lc(1,4) L144_buffer have none: "\<forall>x \<in> set (workers s). \<not> leaving x"
      by auto
    then show ?thesis
      unfolding t using lc L144_buffer assms(3)
      by (intro lifecycleI) simp_all
  qed (auto intro!: fr simp: t)
qed

lemma lifecycle_worker:
  assumes "lifecycle s" "acct s" "main_pc s \<noteq> MExit" "worker_step j s = Inr t"
  shows "lifecycle t"
  using assms(4)
proof (cases rule: worker_step_cases)
  case (recv rb rest)
  note lc = lifecycleD [OF assms(1)]
  from lc(4) recv have none: "\<forall>x \<in> set (workers s). \<not> leaving x"
    by auto
  have "cnt (\<lambda>w. w \<noteq> WExited) ((workers s)[j := W169 rb]) = cnt (\<lambda>w. w \<noteq> WExited) (workers s)"
    using cnt_update [of j "workers s" "\<lambda>w. w \<noteq> WExited" "W169 rb"] recv by simp
  moreover have "\<forall>x \<in> set ((workers s)[j := W169 rb]). \<not> leaving x"
    using recv(1) _ none by (rule set_update_leaving) simp
  moreover have "\<forall>k < length (workers s).
      (workers s)[j := W169 rb] ! k = W166_parked \<longrightarrow> k \<in> set (recvq (bodyQueue s))"
    using lc(5) recv by (auto simp: nth_list_update split: if_splits)
  ultimately show ?thesis
    using lc recv assms(3) by (intro lifecycleI) simp_all
next
  case loop_end
  note lc = lifecycleD [OF assms(1)]
  have "cnt (\<lambda>w. w \<noteq> WExited) ((workers s)[j := W164]) = cnt (\<lambda>w. w \<noteq> WExited) (workers s)"
    using cnt_update [of j "workers s" "\<lambda>w. w \<noteq> WExited" W164] loop_end by simp
  moreover have "\<forall>k < length (workers s).
      (workers s)[j := W164] ! k = W166_parked \<longrightarrow> k \<in> set (recvq (bodyQueue s))"
    using lc(5) loop_end by (auto simp: nth_list_update split: if_splits)
  ultimately show ?thesis
    using lc loop_end assms(3) by (intro lifecycleI) simp_all
next
  case park
  note lc = lifecycleD [OF assms(1)]
  from lc(4) park have none: "\<forall>x \<in> set (workers s). \<not> leaving x"
    by auto
  have "cnt (\<lambda>w. w \<noteq> WExited) ((workers s)[j := W166_parked]) = cnt (\<lambda>w. w \<noteq> WExited) (workers s)"
    using cnt_update [of j "workers s" "\<lambda>w. w \<noteq> WExited" W166_parked] park by simp
  moreover have "\<forall>x \<in> set ((workers s)[j := W166_parked]). \<not> leaving x"
    using park(1) _ none by (rule set_update_leaving) simp
  moreover have "\<forall>k < length (workers s).
      (workers s)[j := W166_parked] ! k = W166_parked \<longrightarrow> k \<in> set (recvq (bodyQueue s) @ [j])"
    using lc(5) park by (auto simp: nth_list_update split: if_splits)
  ultimately show ?thesis
    using lc park assms(3) by (intro lifecycleI) simp_all
next
  case (add_size rb)
  note lc = lifecycleD [OF assms(1)]
  have "cnt (\<lambda>w. w \<noteq> WExited) ((workers s)[j := W166]) = cnt (\<lambda>w. w \<noteq> WExited) (workers s)"
    using cnt_update [of j "workers s" "\<lambda>w. w \<noteq> WExited" W166] add_size by simp
  moreover have "(\<exists>x \<in> set ((workers s)[j := W166]). leaving x) \<longrightarrow> (\<exists>x \<in> set (workers s). leaving x)"
    using add_size(1) by (metis set_update_leaving leaving.simps(3))
  moreover have "\<forall>k < length (workers s).
      (workers s)[j := W166] ! k = W166_parked \<longrightarrow> k \<in> set (recvq (bodyQueue s))"
    using lc(5) add_size by (auto simp: nth_list_update split: if_splits)
  ultimately show ?thesis
    using lc add_size assms(3) by (intro lifecycleI) auto
next
  case wg_done
  note lc = lifecycleD [OF assms(1)]
  have "cnt (\<lambda>w. w \<noteq> WExited) ((workers s)[j := WExited]) + 1 = cnt (\<lambda>w. w \<noteq> WExited) (workers s)"
    using cnt_update [of j "workers s" "\<lambda>w. w \<noteq> WExited" WExited] wg_done by simp
  moreover have "chan_closed (bodyQueue s) \<and> buf (bodyQueue s) = []"
    using lc(4) wg_done by (metis leaving.simps(1) nth_mem)
  moreover have "\<forall>k < length (workers s).
      (workers s)[j := WExited] ! k = W166_parked \<longrightarrow> k \<in> set (recvq (bodyQueue s))"
    using lc(5) wg_done by (auto simp: nth_list_update split: if_splits)
  ultimately show ?thesis
    using lc wg_done assms(3) by (intro lifecycleI) auto
qed

lemma wake_cnt:
  assumes "\<forall>j \<in> set q. j < length ws \<and> ws ! j = W166_parked"
  shows "cnt (\<lambda>w. w \<noteq> WExited) (wake q ws) = cnt (\<lambda>w. w \<noteq> WExited) ws"
proof -
  have "map (\<lambda>w. w \<noteq> WExited) (wake q ws) = map (\<lambda>w. w \<noteq> WExited) ws"
  proof (rule nth_equalityI)
    fix k
    assume "k < length (map (\<lambda>w. w \<noteq> WExited) (wake q ws))"
    then have "k < length ws" by simp
    then show "map (\<lambda>w. w \<noteq> WExited) (wake q ws) ! k = map (\<lambda>w. w \<noteq> WExited) ws ! k"
      using assms by (auto simp: wake_nth)
  qed simp
  then have "length (filter id (map (\<lambda>w. w \<noteq> WExited) (wake q ws)))
           = length (filter id (map (\<lambda>w. w \<noteq> WExited) ws))"
    by simp
  then show ?thesis
    by (simp add: cnt_def filter_map comp_def)
qed

lemma lifecycle_main:
  assumes "lifecycle s" "acct s" "main_step s = Inr t"
  shows "lifecycle t"
  using assms(3)
proof (cases rule: main_step_cases)
  case signal
  then show ?thesis
    using lifecycleD [OF assms(1)] by (intro lifecycleI) simp_all
next
  case shutdown
  then show ?thesis
    using lifecycleD [OF assms(1)] by (intro lifecycleI) simp_all
next
  case idle
  then show ?thesis
    using lifecycleD [OF assms(1)] by (intro lifecycleI) simp_all
next
  case close
  note lc = lifecycleD [OF assms(1)]
  let ?q = "recvq (bodyQueue s)"
  from assms(2) have parked: "\<forall>j \<in> set ?q. j < length (workers s) \<and> workers s ! j = W166_parked"
    and empty: "?q \<noteq> [] \<longrightarrow> buf (bodyQueue s) = []"
    by (auto simp: acct_def)
  have "cnt (\<lambda>w. w \<noteq> WExited) (wake ?q (workers s)) = cnt (\<lambda>w. w \<noteq> WExited) (workers s)"
    using parked by (rule wake_cnt)
  moreover have "(\<exists>w \<in> set (wake ?q (workers s)). leaving w) \<longrightarrow> buf (bodyQueue s) = []"
  proof
    assume "\<exists>w \<in> set (wake ?q (workers s)). leaving w"
    then obtain k where k: "k < length (workers s)" "leaving (wake ?q (workers s) ! k)"
      by (metis in_set_conv_nth wake_length)
    from lc(1,4) close have "\<not> leaving (workers s ! k)"
      using k(1) by (metis closed_by_main.simps(4) nth_mem)
    with k have "k \<in> set ?q"
      by (auto simp: wake_nth split: if_splits)
    with empty show "buf (bodyQueue s) = []" by auto
  qed
  moreover have "\<forall>k < length (workers s). wake ?q (workers s) ! k = W166_parked \<longrightarrow> False"
    using lc(5) by (auto simp: wake_nth split: if_splits)
  ultimately show ?thesis
    using lc close by (intro lifecycleI) auto
next
  case wait
  then show ?thesis
    using lifecycleD [OF assms(1)] by (intro lifecycleI) simp_all
next
  case display
  then show ?thesis
    using lifecycleD [OF assms(1)] by (intro lifecycleI) simp_all
qed

lemma lifecycle_step:
  assumes "lifecycle s" "acct s" "step s a = Inr t"
  shows "lifecycle t"
  using assms(3)
proof (cases rule: step_cases)
  case (Arrive r)
  with assms(1) show ?thesis by (auto intro: lifecycle_frame)
next
  case (Handler i)
  with assms(1,2) show ?thesis by (auto intro: lifecycle_handler)
next
  case (Worker j)
  with assms(1,2) show ?thesis by (auto intro: lifecycle_worker)
next
  case Signal
  with assms(1) show ?thesis by (auto intro: lifecycle_frame)
next
  case Main
  with assms(1,2) show ?thesis by (auto intro: lifecycle_main)
next
  case ShutdownFails
  then show ?thesis
    using lifecycleD [OF assms(1)] by (intro lifecycleI) auto
qed

section \<open>The reply\<close>

lemma reply_ok_step:
  assumes "reply_ok h" "requestHandler_step h s = Inr (h', s')"
  shows "reply_ok h'"
  using assms(2)
  by (cases rule: requestHandler_step_cases) (use assms(1) in \<open>auto simp: reply_ok_def\<close>)

lemma reply_ok_handler:
  assumes "\<forall>h \<in> set (handlers s). reply_ok h" "handler_step i s = Inr t"
  shows "\<forall>h \<in> set (handlers t). reply_ok h"
  using assms(2)
proof (cases rule: handler_step_cases)
  case (step h h' s' before after)
  with assms(1) have "reply_ok h'"
    by (auto intro: reply_ok_step)
  with step assms(1) show ?thesis by auto
qed

lemma reply_ok_stepwise:
  assumes "\<forall>h \<in> set (handlers s). reply_ok h" "step s a = Inr t"
  shows "\<forall>h \<in> set (handlers t). reply_ok h"
  using assms(2)
proof (cases rule: step_cases)
  case (Arrive r)
  with assms(1) show ?thesis by (auto simp: reply_ok_def new_handler_def)
next
  case (Handler i)
  show ?thesis using assms(1) Handler(3) by (rule reply_ok_handler)
next
  case (Worker j)
  from Worker(3) show ?thesis
    by (cases rule: worker_step_cases) (use assms(1) in auto)
next
  case Signal
  with assms(1) show ?thesis by auto
next
  case Main
  from Main(2) show ?thesis
    by (cases rule: main_step_cases) (use assms(1) in auto)
next
  case ShutdownFails
  with assms(1) show ?thesis by auto
qed

section \<open>Every state of every schedule satisfies the invariants\<close>

lemma inv_init: "inv (init q w)"
  by (simp add: inv_def acct_init registry_init lifecycle_init) (simp add: init_def)

lemma inv_step:
  assumes "inv s" "step s a = Inr t"
  shows "inv t"
  using assms acct_step registry_step lifecycle_step reply_ok_stepwise
  unfolding inv_def by blast

lemma inv_run:
  assumes "inv s" "run s sched = Inr t"
  shows "inv t"
  using assms
proof (induction sched arbitrary: s)
  case Nil
  then show ?case by simp
next
  case (Cons a sched)
  then show ?case
    by (auto split: sum.splits intro: inv_step)
qed

lemma reachable_inv: "run (init q w) sched = Inr s \<Longrightarrow> inv s"
  using inv_init by (rule inv_run)

lemma requests_run:
  assumes "run s sched = Inr t"
  shows "map ctx (handlers t) = map ctx (handlers s) @ requests sched"
  using assms
proof (induction sched arbitrary: s)
  case Nil
  then show ?case by simp
next
  case (Cons a sched)
  then obtain u where u: "step s a = Inr u" "run u sched = Inr t"
    by (auto split: sum.splits)
  from u(1) have "map ctx (handlers u) = map ctx (handlers s) @ requests [a]"
  proof (cases rule: step_cases)
    case (Arrive r)
    then show ?thesis by (simp add: new_handler_def)
  next
    case (Handler i)
    from Handler(3) show ?thesis
    proof (cases rule: handler_step_cases)
      case (step h h' s' before after)
      from step(3) have "ctx h' = ctx h"
        by (cases rule: requestHandler_step_cases) auto
      with step Handler show ?thesis by simp
    qed
  next
    case (Worker j)
    from Worker(3) show ?thesis
      by (cases rule: worker_step_cases) (use Worker in auto)
  next
    case Signal
    then show ?thesis by simp
  next
    case Main
    from Main(2) show ?thesis
      by (cases rule: main_step_cases) (use Main in auto)
  next
    case ShutdownFails
    then show ?thesis by simp
  qed
  moreover have "requests (a # sched) = requests [a] @ requests sched"
    by (cases a) auto
  ultimately show ?case
    using Cons.IH [OF u(2)] by simp
qed

lemma requests_reachable:
  "run (init q w) sched = Inr s \<Longrightarrow> map ctx (handlers s) = requests sched"
  using requests_run [of "init q w" sched s] by (simp add: init_def)

section \<open>What the invariants give\<close>

lemma cnt_map: "cnt P (map f xs) = cnt (\<lambda>x. P (f x)) xs"
  by (induction xs) auto

lemma past188_past159: "past188 p \<Longrightarrow> past159 p"
  by (cases p) auto

lemma sum_list_if_eq:
  fixes c :: "'a \<Rightarrow> nat"
  assumes "distinct as"
  shows "sum_list (map (\<lambda>a. if a = b then Suc (c a) else c a) as)
         = (if b \<in> set as then Suc (sum_list (map c as)) else sum_list (map c as))"
  using assms by (induction as) auto

text \<open>Counting by classes: every counted element falls into exactly one class.\<close>

lemma cnt_partition:
  assumes "distinct as" "\<forall>x \<in> set xs. P x \<longrightarrow> (\<exists>a \<in> set as. f x = Some a)"
  shows "sum_list (map (\<lambda>a. cnt (\<lambda>x. P x \<and> f x = Some a) xs) as) = cnt P xs"
  using assms(2)
proof (induction xs)
  case Nil
  then show ?case by simp
next
  case (Cons x xs)
  then have IH: "sum_list (map (\<lambda>a. cnt (\<lambda>x. P x \<and> f x = Some a) xs) as) = cnt P xs"
    by simp
  show ?case
  proof (cases "P x")
    case False
    then show ?thesis using IH by simp
  next
    case True
    with Cons.prems obtain b where b: "b \<in> set as" "f x = Some b"
      by auto
    have "(\<lambda>a. cnt (\<lambda>x. P x \<and> f x = Some a) (x # xs))
        = (\<lambda>a. if a = b then Suc (cnt (\<lambda>x. P x \<and> f x = Some a) xs)
                else cnt (\<lambda>x. P x \<and> f x = Some a) xs)"
      using True b by auto
    then show ?thesis
      using sum_list_if_eq [OF assms(1), of b "\<lambda>a. cnt (\<lambda>x. P x \<and> f x = Some a) xs"] b True IH
      by simp
  qed
qed

lemma map_of_inj:
  assumes "distinct (map snd al)" "map_of al k = Some a" "map_of al k' = Some a"
  shows "k = k'"
proof -
  from assms(2,3) have "(k, a) \<in> set al" "(k', a) \<in> set al"
    by (auto dest: map_of_SomeD)
  moreover from assms(1) have "inj_on snd (set al)"
    by (simp add: distinct_map)
  ultimately have "(k, a) = (k', a)"
    using inj_onD [of snd "set al" "(k, a)" "(k', a)"] by simp
  then show ?thesis by simp
qed

lemma finished_pointer:
  assumes "registry s" "h \<in> set (handlers s)" "finished h"
  shows "\<exists>a. counter h = Some a \<and> map_of (methodCounts (metrics s)) (Method (ctx h)) = Some a"
proof -
  from assms(3) have "pc h = HRet \<or> pc h = HDone"
    by (cases "pc h") (auto simp: finished_def)
  moreover from registryD(4) [OF assms(1)] assms(2) have "ptr_ok (methodCounts (metrics s)) h"
    by blast
  ultimately have "counter h \<noteq> None \<and> map_of (methodCounts (metrics s)) (Method (ctx h)) = counter h"
    by (auto simp: ptr_ok_def)
  then show ?thesis by auto
qed

lemma sum_list_of_nat:
  "sum_list (map (\<lambda>a. of_nat (c a)) xs) = (of_nat (sum_list (map c xs)) :: int64)"
  by (induction xs) auto

text \<open>The counter of a method holds the number of handlers of that method past line 188.\<close>

lemma counter_value:
  assumes "registry s" "map_of (methodCounts (metrics s)) m = Some a"
  shows "a < length (heap s)"
    and "heap s ! a = of_nat (cnt (\<lambda>h. Method (ctx h) = m \<and> finished h) (handlers s))"
proof -
  note r = registryD [OF assms(1)]
  from assms(2) r(6) show a: "a < length (heap s)"
    by (rule map_of_snd_range)
  have d: "distinct (map snd (methodCounts (metrics s)))"
    using r(6) by simp
  have "cnt (\<lambda>h. past188 (pc h) \<and> counter h = Some a) (handlers s)
      = cnt (\<lambda>h. Method (ctx h) = m \<and> finished h) (handlers s)"
  proof (rule cnt_cong)
    fix h
    assume h: "h \<in> set (handlers s)"
    show "(past188 (pc h) \<and> counter h = Some a) = (Method (ctx h) = m \<and> finished h)"
    proof (cases "past188 (pc h)")
      case False
      then show ?thesis by (simp add: finished_def)
    next
      case True
      with finished_pointer [OF assms(1) h]
      have p: "map_of (methodCounts (metrics s)) (Method (ctx h)) = counter h"
        by (auto simp: finished_def)
      show ?thesis
      proof
        assume "past188 (pc h) \<and> counter h = Some a"
        with p have "map_of (methodCounts (metrics s)) (Method (ctx h)) = Some a"
          by simp
        with d have "Method (ctx h) = m"
          using assms(2) by (rule map_of_inj)
        with True show "Method (ctx h) = m \<and> finished h"
          by (simp add: finished_def)
      next
        assume "Method (ctx h) = m \<and> finished h"
        with p assms(2) True show "past188 (pc h) \<and> counter h = Some a"
          by simp
      qed
    qed
  qed
  with r(7) a show "heap s ! a = of_nat (cnt (\<lambda>h. Method (ctx h) = m \<and> finished h) (handlers s))"
    by simp
qed

lemma counter_present:
  assumes "registry s" "h \<in> set (handlers s)" "finished h"
  shows "\<exists>a. map_of (methodCounts (metrics s)) (Method (ctx h)) = Some a"
  using finished_pointer [OF assms] by auto

text \<open>The counters of all methods add up to the number of handlers past line 188.\<close>

lemma class_counts:
  assumes "registry s"
  shows "sum_list (map (\<lambda>a. cnt (\<lambda>h. finished h \<and> counter h = Some a) (handlers s))
           [0..<length (heap s)]) = cnt finished (handlers s)"
proof (rule cnt_partition)
  note r = registryD [OF assms]
  show "\<forall>h \<in> set (handlers s). finished h \<longrightarrow> (\<exists>a \<in> set [0..<length (heap s)]. counter h = Some a)"
  proof (intro ballI impI)
    fix h
    assume h: "h \<in> set (handlers s)" "finished h"
    with finished_pointer [OF assms] obtain a where
      a: "map_of (methodCounts (metrics s)) (Method (ctx h)) = Some a" "counter h = Some a"
      by blast
    from a(1) r(6) have "a < length (heap s)" by (rule map_of_snd_range)
    with a(2) show "\<exists>a \<in> set [0..<length (heap s)]. counter h = Some a" by simp
  qed
qed simp

lemma heap_as_counts:
  assumes "registry s"
  shows "map (\<lambda>(m, a). f (heap s ! a)) (methodCounts (metrics s))
         = map (\<lambda>a. f (of_nat (cnt (\<lambda>h. finished h \<and> counter h = Some a) (handlers s))))
             [0..<length (heap s)]"
proof -
  note r = registryD [OF assms]
  have "map (\<lambda>(m, a). f (heap s ! a)) (methodCounts (metrics s))
      = map (\<lambda>a. f (heap s ! a)) (map snd (methodCounts (metrics s)))"
    by (simp add: comp_def case_prod_unfold)
  also have "\<dots> = map (\<lambda>a. f (heap s ! a)) [0..<length (heap s)]"
    using r(6) by simp
  also have "\<dots> = map (\<lambda>a. f (of_nat (cnt (\<lambda>h. finished h \<and> counter h = Some a) (handlers s))))
             [0..<length (heap s)]"
    using r(7) by (intro map_cong) (auto simp: finished_def)
  finally show ?thesis .
qed

lemma sum_methodCounts_value:
  assumes "registry s"
  shows "sum_methodCounts s = of_nat (cnt finished (handlers s))"
proof -
  have "sum_methodCounts s
      = sum_list (map (\<lambda>a. of_nat (cnt (\<lambda>h. finished h \<and> counter h = Some a) (handlers s)))
          [0..<length (heap s)])"
    unfolding sum_methodCounts_def using heap_as_counts [OF assms, of "\<lambda>v. v"] by simp
  also have "\<dots> = of_nat (sum_list (map (\<lambda>a. cnt (\<lambda>h. finished h \<and> counter h = Some a) (handlers s))
          [0..<length (heap s)]))"
    by (rule sum_list_of_nat)
  finally show ?thesis
    using class_counts [OF assms] by simp
qed

lemma sum_list_int:
  "sum_list (map (\<lambda>a. int (c a)) xs) = int (sum_list (map c xs))"
  by (induction xs) auto

lemma sum_methodCounts_sint:
  assumes "registry s" "length (handlers s) < 2 ^ 63"
  shows "sum_list (map (\<lambda>(m, a). sint (heap s ! a)) (methodCounts (metrics s)))
         = int (cnt finished (handlers s))"
proof -
  let ?c = "\<lambda>a. cnt (\<lambda>h. finished h \<and> counter h = Some a) (handlers s)"
  have small: "?c a < 2 ^ 63" for a
    using cnt_le_length [of "\<lambda>h. finished h \<and> counter h = Some a" "handlers s"] assms(2)
    by simp
  have "map (\<lambda>(m, a). sint (heap s ! a)) (methodCounts (metrics s))
      = map (\<lambda>a. sint (of_nat (?c a) :: int64)) [0..<length (heap s)]"
    by (rule heap_as_counts [OF assms(1)])
  also have "\<dots> = map (\<lambda>a. int (?c a)) [0..<length (heap s)]"
    using small by (simp add: sint_of_nat_int64)
  finally have "sum_list (map (\<lambda>(m, a). sint (heap s ! a)) (methodCounts (metrics s)))
      = int (sum_list (map ?c [0..<length (heap s)]))"
    by (simp add: sum_list_int)
  then show ?thesis
    using class_counts [OF assms(1)] by simp
qed

lemma drained_queued_bytes: "drained s \<Longrightarrow> queued_bytes s = 0"
proof -
  assume d: "drained s"
  have "holding w = 0" if "idle w" for w
    using that by (cases w) auto
  with d have "\<forall>w \<in> set (workers s). holding w = 0"
    by (auto simp: drained_def)
  then have "sum_list (map holding (workers s)) = 0"
    by simp
  with d show ?thesis
    by (simp add: queued_bytes_def drained_def)
qed

lemma done_counted:
  assumes "acct s" "handlers_done s"
  shows "totalRequests (metrics s) = of_nat (length (handlers s))"
proof -
  from assms(2) have "\<forall>h \<in> set (handlers s). past159 (pc h)"
    by (auto simp: handlers_done_def finished_def intro: past188_past159)
  then have "cnt (\<lambda>h. past159 (pc h)) (handlers s) = length (handlers s)"
    by (rule cnt_all)
  with assms(1) show ?thesis
    by (simp add: acct_def)
qed

lemma done_dropped:
  assumes "acct s" "handlers_done s"
  shows "droppedBodies (metrics s) = of_nat (cnt (\<lambda>h. pushed h = Rejected) (handlers s))"
proof -
  have "cnt drop_counted (handlers s) = cnt (\<lambda>h. pushed h = Rejected) (handlers s)"
  proof (rule cnt_cong)
    fix h
    assume "h \<in> set (handlers s)"
    with assms(2) have "past188 (pc h)"
      by (simp add: handlers_done_def finished_def)
    then have "pc h \<noteq> H154" by auto
    then show "drop_counted h = (pushed h = Rejected)"
      by (simp add: drop_counted_def)
  qed
  with assms(1) show ?thesis
    by (simp add: acct_def)
qed

text \<open>A finished handler with a body either enqueued it or had it rejected.\<close>

lemma done_pushed:
  assumes "push_ok h" "finished h"
  shows "enqueued_len h + rejected_len h = length (Body (ctx h))"
proof -
  from assms(2) have "pc h = HRet \<or> pc h = HDone"
    by (cases "pc h") (auto simp: finished_def)
  with assms(1) have "(pushed h = NotTried) = (Body (ctx h) = [])"
    by (auto simp: push_ok_def)
  then show ?thesis
    by (cases "pushed h") (auto simp: enqueued_len_def rejected_len_def)
qed

lemma done_bytes:
  assumes "acct s" "handlers_done s"
  shows "sum_list (map enqueued_len (handlers s)) + sum_list (map rejected_len (handlers s))
         = sum_list (map (\<lambda>h. length (Body (ctx h))) (handlers s))"
proof -
  from assms have "\<forall>h \<in> set (handlers s). enqueued_len h + rejected_len h = length (Body (ctx h))"
    by (auto simp: acct_def handlers_done_def intro: done_pushed)
  then have "sum_list (map (\<lambda>h. enqueued_len h + rejected_len h) (handlers s))
      = sum_list (map (\<lambda>h. length (Body (ctx h))) (handlers s))"
    by (intro arg_cong [where f = sum_list] map_cong) auto
  then show ?thesis
    by (simp add: sum_list_addf)
qed

lemma body_bytes_requests:
  assumes "map ctx (handlers s) = rs"
  shows "sum_list (map (\<lambda>h. length (Body (ctx h))) (handlers s))
         = sum_list (map (\<lambda>r. length (Body r)) rs)"
proof -
  have "map (\<lambda>h. length (Body (ctx h))) (handlers s) = map (\<lambda>r. length (Body r)) (map ctx (handlers s))"
    by simp
  with assms show ?thesis by simp
qed

lemma projr_run: "\<not> isl (run s sched) \<Longrightarrow> run s sched = Inr (projr (run s sched))"
  by (cases "run s sched") auto

section \<open>Rounding to \<^verbatim>\<open>float64\<close>\<close>

lemma bitlen_bounds:
  "0 < n \<Longrightarrow> 0 < bitlen n \<and> 2 ^ nat (bitlen n - 1) \<le> n \<and> n < 2 ^ nat (bitlen n)"
proof (induction n rule: bitlen.induct)
  case (1 n)
  show ?case
  proof (cases "n = 1")
    case True
    have "bitlen 0 = 0"
      by (subst bitlen.simps) simp
    then have "bitlen 1 = 1"
      by (subst bitlen.simps) simp
    with True show ?thesis
      by simp
  next
    case False
    with "1.prems" have h: "0 < n div 2"
      by simp
    let ?b = "bitlen (n div 2)"
    from "1.IH" h "1.prems" have ih: "0 < ?b" "2 ^ nat (?b - 1) \<le> n div 2" "n div 2 < 2 ^ nat ?b"
      by simp_all
    have b: "bitlen n = 1 + ?b"
      using "1.prems" by (subst bitlen.simps) simp
    have s: "nat ?b = Suc (nat (?b - 1))"
      using ih(1) by simp
    have "(2 :: int) ^ nat ?b = 2 * 2 ^ nat (?b - 1)"
      by (subst s) simp
    also have "\<dots> \<le> 2 * (n div 2)"
      using ih(2) by simp
    also have "\<dots> \<le> n"
      by simp
    finally have lo: "2 ^ nat ?b \<le> n" .
    have "n < 2 * (n div 2) + 2"
      by simp
    also have "\<dots> \<le> 2 * 2 ^ nat ?b"
      using ih(3) by simp
    finally have hi: "n < 2 ^ Suc (nat ?b)"
      by simp
    have "nat (1 + ?b) = Suc (nat ?b)"
      using ih(1) by simp
    with lo hi ih(1) show ?thesis
      unfolding b by simp
  qed
qed

lemma ilog2_bounds:
  assumes "0 < x"
  shows "2 powi (ilog2 x) \<le> x" and "x < 2 powi (ilog2 x + 1)"
proof -
  obtain p q where pq: "quotient_of x = (p, q)"
    by (cases "quotient_of x")
  then have q: "0 < q" and x: "x = of_int p / of_int q"
    by (rule quotient_of_denom_pos, rule quotient_of_div)
  from assms x q have p: "0 < p"
    by (simp add: zero_less_divide_iff)
  let ?k = "bitlen p - bitlen q"
  note bp = bitlen_bounds [OF p] and bq = bitlen_bounds [OF q]
  have pw: "(2 :: rat) powi b = of_int (2 ^ nat b)" if "0 \<le> b" for b
    using that by (simp add: power_int_def)
  have plo: "2 powi (bitlen p - 1) \<le> (of_int p :: rat)"
    using bp by (subst pw) (simp_all del: of_int_power add: of_int_le_iff)
  have phi: "(of_int p :: rat) < 2 powi (bitlen p)"
    using bp by (subst pw) (simp_all del: of_int_power add: of_int_less_iff)
  have qlo: "2 powi (bitlen q - 1) \<le> (of_int q :: rat)"
    using bq by (subst pw) (simp_all del: of_int_power add: of_int_le_iff)
  have qhi: "(of_int q :: rat) < 2 powi (bitlen q)"
    using bq by (subst pw) (simp_all del: of_int_power add: of_int_less_iff)
  have pos: "(0 :: rat) < 2 powi b" for b
    by simp
  have qpos: "(0 :: rat) < of_int q"
    using q by simp
  have "x * of_int q = of_int p"
    using x q by simp
  have up: "x < 2 powi (?k + 1)"
  proof -
    have "of_int p < (2 :: rat) powi (bitlen p)"
      by (rule phi)
    also have "\<dots> = 2 powi (?k + 1) * 2 powi (bitlen q - 1)"
      by (simp flip: power_int_add)
    also have "\<dots> \<le> 2 powi (?k + 1) * of_int q"
      using qlo by (intro mult_left_mono) simp_all
    finally show ?thesis
      using qpos unfolding x by (simp add: field_simps)
  qed
  have down: "2 powi (?k - 1) < x"
  proof -
    have "(2 :: rat) powi (?k - 1) * of_int q < 2 powi (?k - 1) * 2 powi (bitlen q)"
      using qhi by (intro mult_strict_left_mono) simp_all
    also have "\<dots> = 2 powi (bitlen p - 1)"
      by (simp flip: power_int_add)
    also have "\<dots> \<le> of_int p"
      by (rule plo)
    finally show ?thesis
      using qpos unfolding x by (simp add: field_simps)
  qed
  show "2 powi (ilog2 x) \<le> x"
    using down by (simp add: ilog2_def pq Let_def less_imp_le)
  show "x < 2 powi (ilog2 x + 1)"
    using up by (simp add: ilog2_def pq Let_def not_le)
qed

lemma round_half_even_error: "\<bar>of_int (round_half_even x) - x\<bar> \<le> 1 / 2"
proof -
  have "of_int \<lfloor>x\<rfloor> \<le> x" "x < of_int \<lfloor>x\<rfloor> + 1"
    by linarith+
  then show ?thesis
    by (auto simp: round_half_even_def Let_def)
qed

lemma ilog2_less:
  assumes "0 < x" "x < 2 powi k"
  shows "ilog2 x < k"
proof (rule ccontr)
  assume "\<not> ilog2 x < k"
  then have "(2 :: rat) powi k \<le> 2 powi (ilog2 x)"
    by (intro power_int_increasing) simp_all
  also have "\<dots> \<le> x"
    using assms(1) by (rule ilog2_bounds)
  finally show False
    using assms(2) by simp
qed

lemma ilog2_ge:
  assumes "0 < x" "2 powi k \<le> x"
  shows "k \<le> ilog2 x"
proof (rule ccontr)
  assume "\<not> k \<le> ilog2 x"
  then have "(2 :: rat) powi (ilog2 x + 1) \<le> 2 powi k"
    by (intro power_int_increasing) simp_all
  with ilog2_bounds(2) [OF assms(1)] assms(2) show False
    by simp
qed

lemma round_float64_error:
  assumes "0 < a" "- 1022 \<le> ilog2 a" "ilog2 a < 1023"
  shows "\<exists>y. round_float64 s a = Finite s y \<and> \<bar>y - a\<bar> \<le> a / 2 ^ 53"
proof -
  note pos = assms(1) and lo = assms(2) and hi = assms(3)
  let ?l = "ilog2 a"
  let ?e = "?l - 52"
  have e: "max ?e (- 1074) = ?e" using lo by simp
  let ?p = "(2 :: rat) powi ?e"
  have p: "0 < ?p" by (rule zero_less_power_int) simp
  let ?m = "round_half_even (a / ?p)"
  have "\<bar>of_int ?m - a / ?p\<bar> \<le> 1 / 2"
    by (rule round_half_even_error)
  then have "\<bar>of_int ?m - a / ?p\<bar> * ?p \<le> 1 / 2 * ?p"
    using p by (intro mult_right_mono) simp_all
  moreover have "of_int ?m * ?p - a = (of_int ?m - a / ?p) * ?p"
    using p by (simp add: left_diff_distrib)
  then have "\<bar>of_int ?m * ?p - a\<bar> = \<bar>of_int ?m - a / ?p\<bar> * ?p"
    using p by (simp only: abs_mult abs_of_pos)
  ultimately have err: "\<bar>of_int ?m * ?p - a\<bar> \<le> ?p / 2"
    by simp
  have c: "(2 :: rat) powi 52 = 2 ^ 53 / 2"
    by (simp add: power_int_def)
  have "?p * 2 powi 52 = 2 powi (?e + 52)"
    by (rule power_int_add [symmetric]) simp
  then have "?p * (2 ^ 53 / 2) = 2 powi ?l"
    unfolding c by simp
  then have "?p * 2 ^ 53 / 2 = 2 powi ?l"
    by simp
  also have "\<dots> \<le> a"
    using pos by (rule ilog2_bounds)
  finally have "?p / 2 \<le> a / 2 ^ 53"
    by (simp add: field_simps)
  with err have bound: "\<bar>of_int ?m * ?p - a\<bar> \<le> a / 2 ^ 53"
    by simp
  have "round_float64 s a = Finite s (of_int ?m * ?p)"
    using pos hi by (simp add: round_float64_def e Let_def)
  with bound show ?thesis
    by blast
qed

lemma range_after_round:
  fixes r q :: rat
  assumes "r / 2 \<le> q" "q \<le> 2 * r" "1 / 2 ^ 65 \<le> r" "r \<le> 2 ^ 65"
  shows "1 / 2 ^ 66 \<le> q" "q \<le> 2 ^ 66"
  using assms by simp_all

lemma range_scaled:
  fixes q :: rat
  assumes "1 / 2 ^ 66 \<le> q" "q \<le> 2 ^ 66"
  shows "1 / 2 ^ 100 \<le> q / 1024" "q / 1024 \<le> 2 ^ 100"
    "1 / 2 ^ 100 \<le> q * 100" "q * 100 \<le> 2 ^ 100"
  using assms by simp_all

lemma range_of_int64:
  fixes a y :: rat
  assumes "1 \<le> a" "a \<le> 2 ^ 63" "a / 2 \<le> y" "y \<le> 2 * a"
  shows "1 / 2 ^ 100 \<le> a" "a \<le> 2 ^ 100" "1 / 2 \<le> y" "y \<le> 2 ^ 64"
  using assms by simp_all

lemma round_float64_bracket:
  assumes "1 / 2 ^ 100 \<le> a" "a \<le> 2 ^ 100"
  shows "\<exists>y. round_float64 s a = Finite s y \<and>
           bracket (1 - 1 / 2 ^ 53) (1 + 1 / 2 ^ 53) a y \<and> a / 2 \<le> y \<and> y \<le> 2 * a"
proof -
  have "(0 :: rat) < 1 / 2 ^ 100"
    by simp
  then have pos: "0 < a"
    using assms(1) by (rule less_le_trans)
  have "(2 :: rat) powi (- 100) = 1 / 2 ^ 100"
    by (simp add: power_int_minus)
  with assms(1) have "2 powi (- 100) \<le> a"
    by simp
  with pos have "- 100 \<le> ilog2 a"
    by (rule ilog2_ge)
  then have lo: "- 1022 \<le> ilog2 a"
    by simp
  have "(2 :: rat) ^ 100 < 2 powi 101"
    by simp
  with assms(2) have "a < 2 powi 101"
    by (rule le_less_trans)
  with pos have "ilog2 a < 101"
    by (rule ilog2_less)
  then have hi: "ilog2 a < 1023"
    by simp
  from round_float64_error [OF pos lo hi, of s] obtain y
    where y: "round_float64 s a = Finite s y" "\<bar>y - a\<bar> \<le> a / 2 ^ 53"
    by blast
  from y(2) have d: "y - a \<le> a / 2 ^ 53" "- (y - a) \<le> a / 2 ^ 53"
    unfolding abs_le_iff by simp_all
  have e: "(1 - 1 / 2 ^ 53) * a = a - a / 2 ^ 53" "(1 + 1 / 2 ^ 53) * a = a + a / 2 ^ 53"
    by (simp_all add: algebra_simps)
  from d have "a - a / 2 ^ 53 \<le> y" "y \<le> a + a / 2 ^ 53"
    by simp_all
  then have b: "bracket (1 - 1 / 2 ^ 53) (1 + 1 / 2 ^ 53) a y"
    unfolding bracket_def e by (rule conjI)
  have "a / 2 ^ 53 \<le> a / 2"
    using pos by (intro divide_left_mono) simp_all
  with d pos have "a / 2 \<le> y" "y \<le> 2 * a"
    by simp_all
  with y(1) b show ?thesis
    by blast
qed

lemma bracket_trans:
  assumes "bracket l1 h1 x y" "bracket l2 h2 y z" "0 \<le> l2" "0 \<le> h2"
  shows "bracket (l2 * l1) (h2 * h1) x z"
proof -
  from assms have "l2 * (l1 * x) \<le> l2 * y" "h2 * y \<le> h2 * (h1 * x)"
    by (simp_all add: bracket_def mult_left_mono)
  with assms(2) show ?thesis
    by (simp add: bracket_def mult.assoc)
qed

lemma bracket_div:
  assumes "bracket l1 h1 x x'" "bracket l2 h2 y y'" "0 \<le> x" "0 < y" "0 \<le> l1" "0 < l2"
  shows "bracket (l1 / h2) (h1 / l2) (x / y) (x' / y')"
proof -
  from assms have x': "l1 * x \<le> x'" "x' \<le> h1 * x" and y': "l2 * y \<le> y'" "y' \<le> h2 * y"
    by (simp_all add: bracket_def)
  have ly: "0 < l2 * y"
    using assms(4,6) by simp
  with y' have py: "0 < y'" and ph: "0 < h2 * y"
    by simp_all
  have px: "0 \<le> l1 * x"
    using assms(3,5) by simp
  with x' have px': "0 \<le> x'"
    by simp
  from px' x'(2) have ph1: "0 \<le> h1 * x"
    by simp
  have "x' / y' \<le> (h1 * x) / (l2 * y)"
    using ph1 x'(2) ly y'(1) by (rule frac_le)
  moreover have "(l1 * x) / (h2 * y) \<le> x' / y'"
    using px' x'(1) py y'(2) by (rule frac_le)
  ultimately show ?thesis
    by (simp add: bracket_def)
qed

lemma bracket_scale:
  assumes "bracket l h x y" "0 \<le> c"
  shows "bracket l h (x * c) (y * c)"
proof -
  from assms have "l * x * c \<le> y * c" "y * c \<le> h * x * c"
    by (simp_all add: bracket_def mult_right_mono)
  then show ?thesis
    by (simp add: bracket_def mult.assoc)
qed

lemma bracket_shrink:
  assumes "bracket l h x y" "0 < c"
  shows "bracket l h (x / c) (y / c)"
proof -
  from assms have "l * x / c \<le> y / c" "y / c \<le> h * x / c"
    by (simp_all add: bracket_def divide_right_mono)
  then show ?thesis
    by (simp add: bracket_def)
qed

lemma float64_error_bound:
  "(1 :: rat) - 1 / 2 ^ 50 \<le> (1 - 1 / 2 ^ 53) * ((1 - 1 / 2 ^ 53) * ((1 - 1 / 2 ^ 53) / (1 + 1 / 2 ^ 53)))"
  "(1 + 1 / 2 ^ 53) * ((1 + 1 / 2 ^ 53) * ((1 + 1 / 2 ^ 53) / (1 - 1 / 2 ^ 53))) \<le> (1 :: rat) + 1 / 2 ^ 50"
  by simp_all

lemma bracket_weaken:
  assumes "bracket l h x y" "l' \<le> l" "h \<le> h'" "0 \<le> x"
  shows "bracket l' h' x y"
proof -
  from assms(2-4) have "l' * x \<le> l * x" "h * x \<le> h' * x"
    by (simp_all add: mult_right_mono)
  with assms(1) show ?thesis
    by (simp add: bracket_def)
qed

lemma bracket_error:
  assumes "bracket (1 - e) (1 + e) x y"
  shows "\<bar>y - x\<bar> \<le> e * x"
  using assms by (simp add: bracket_def abs_le_iff algebra_simps)

lemma float64_of_int_pos:
  assumes "0 < k" "k < 2 ^ 63"
  shows "\<exists>y. float64_of_int k = Finite False y \<and>
           bracket (1 - 1 / 2 ^ 53) (1 + 1 / 2 ^ 53) (of_int k) y \<and> 1 / 2 \<le> y \<and> y \<le> 2 ^ 64"
proof -
  let ?a = "of_int k :: rat"
  have one: "1 \<le> ?a"
    using assms(1) by simp
  have "?a \<le> of_int (2 ^ 63)"
    using assms(2) by (simp only: of_int_le_iff)
  then have top: "?a \<le> 2 ^ 63"
    by simp
  have "1 / 2 ^ 100 \<le> ?a" "?a \<le> 2 ^ 100"
    using one top by (rule range_of_int64 [where y = ?a], simp_all)+
  from round_float64_bracket [OF this, of False] obtain y
    where y: "round_float64 False ?a = Finite False y"
      "bracket (1 - 1 / 2 ^ 53) (1 + 1 / 2 ^ 53) ?a y" "?a / 2 \<le> y" "y \<le> 2 * ?a"
    by blast
  have "float64_of_int k = round_float64 False ?a"
    using assms(1) by (simp add: float64_of_int_def)
  moreover note range_of_int64(3,4) [OF one top y(3,4)]
  ultimately show ?thesis
    using y(1,2) by simp
qed

text \<open>The quotient of two converted positive integers.\<close>

lemma fdiv_of_ints:
  assumes "0 < d" "d < 2 ^ 63" "0 < t" "t < 2 ^ 63"
  shows "\<exists>q. fdiv (float64_of_int d) (float64_of_int t) = Finite False q \<and>
           bracket ((1 - 1 / 2 ^ 53) * ((1 - 1 / 2 ^ 53) / (1 + 1 / 2 ^ 53)))
                   ((1 + 1 / 2 ^ 53) * ((1 + 1 / 2 ^ 53) / (1 - 1 / 2 ^ 53)))
                   (of_int d / of_int t) q \<and>
           1 / 2 ^ 66 \<le> q \<and> q \<le> 2 ^ 66"
proof -
  from float64_of_int_pos [OF assms(1,2)] obtain x
    where x: "float64_of_int d = Finite False x"
      "bracket (1 - 1 / 2 ^ 53) (1 + 1 / 2 ^ 53) (of_int d) x" "1 / 2 \<le> x" "x \<le> 2 ^ 64"
    by blast
  from float64_of_int_pos [OF assms(3,4)] obtain y
    where y: "float64_of_int t = Finite False y"
      "bracket (1 - 1 / 2 ^ 53) (1 + 1 / 2 ^ 53) (of_int t) y" "1 / 2 \<le> y" "y \<le> 2 ^ 64"
    by blast
  have y0: "y \<noteq> 0" "0 < y"
    using y(3) by simp_all
  have "x / y \<le> 2 ^ 64 / (1 / 2)"
    using x(3,4) y(3) by (intro frac_le) simp_all
  then have hi: "x / y \<le> 2 ^ 65"
    by simp
  have "(1 / 2) / 2 ^ 64 \<le> x / y"
    using x(3) y(4) y0(2) by (intro frac_le) simp_all
  then have lo: "1 / 2 ^ 65 \<le> x / y"
    by simp
  have "(1 :: rat) / 2 ^ 100 \<le> 1 / 2 ^ 65"
    by simp
  then have lo': "1 / 2 ^ 100 \<le> x / y"
    using lo by (rule order_trans)
  have "(2 :: rat) ^ 65 \<le> 2 ^ 100"
    by simp
  with hi have hi': "x / y \<le> 2 ^ 100"
    by (rule order_trans)
  from round_float64_bracket [OF lo' hi', of False] obtain q
    where q: "round_float64 False (x / y) = Finite False q"
      "bracket (1 - 1 / 2 ^ 53) (1 + 1 / 2 ^ 53) (x / y) q" "x / y / 2 \<le> q" "q \<le> 2 * (x / y)"
    by blast
  have quot: "bracket ((1 - 1 / 2 ^ 53) / (1 + 1 / 2 ^ 53)) ((1 + 1 / 2 ^ 53) / (1 - 1 / 2 ^ 53))
      (of_int d / of_int t) (x / y)"
    using x(2) y(2) assms(1,3) by (intro bracket_div) simp_all
  have "bracket ((1 - 1 / 2 ^ 53) * ((1 - 1 / 2 ^ 53) / (1 + 1 / 2 ^ 53)))
                ((1 + 1 / 2 ^ 53) * ((1 + 1 / 2 ^ 53) / (1 - 1 / 2 ^ 53)))
                (of_int d / of_int t) q"
    using quot q(2) by (rule bracket_trans) simp_all
  moreover have "fdiv (float64_of_int d) (float64_of_int t) = Finite False q"
    using x(1) y(1) y0(1) q(1) by simp
  moreover note range_after_round [OF q(3,4) lo hi]
  ultimately show ?thesis
    by blast
qed

lemma float64_of_const:
  "float64_of_int 100 = Finite False 100" "float64_of_int 1024 = Finite False 1024"
  by code_simp+

text \<open>
  \<^verbatim>\<open>float64(d) / float64(t) * 100\<close> and \<^verbatim>\<open>float64(b) / float64(t) / 1024\<close> for positive \<^verbatim>\<open>int64\<close>
  operands: four roundings, a relative error of at most \<open>2 ^ - 50\<close>.
\<close>

lemma percentage_float64:
  assumes "0 < d" "d < 2 ^ 63" "0 < t" "t < 2 ^ 63"
  shows "\<exists>v. fmul (fdiv (float64_of_int d) (float64_of_int t)) (float64_of_int 100) = Finite False v \<and>
           \<bar>v - of_int d / of_int t * 100\<bar> \<le> of_int d / of_int t * 100 / 2 ^ 50"
proof -
  let ?E = "of_int d / of_int t :: rat"
  have E: "0 \<le> ?E"
    using assms(1,3) by simp
  from fdiv_of_ints [OF assms] obtain q
    where q: "fdiv (float64_of_int d) (float64_of_int t) = Finite False q"
      "bracket ((1 - 1 / 2 ^ 53) * ((1 - 1 / 2 ^ 53) / (1 + 1 / 2 ^ 53)))
               ((1 + 1 / 2 ^ 53) * ((1 + 1 / 2 ^ 53) / (1 - 1 / 2 ^ 53))) ?E q"
      "1 / 2 ^ 66 \<le> q" "q \<le> 2 ^ 66"
    by blast
  from round_float64_bracket [OF range_scaled(3,4) [OF q(3,4)], of False] obtain v
    where v: "round_float64 False (q * 100) = Finite False v"
      "bracket (1 - 1 / 2 ^ 53) (1 + 1 / 2 ^ 53) (q * 100) v"
    by blast
  have "bracket ((1 - 1 / 2 ^ 53) * ((1 - 1 / 2 ^ 53) / (1 + 1 / 2 ^ 53)))
               ((1 + 1 / 2 ^ 53) * ((1 + 1 / 2 ^ 53) / (1 - 1 / 2 ^ 53))) (?E * 100) (q * 100)"
    using q(2) by (rule bracket_scale) simp
  then have br: "bracket ((1 - 1 / 2 ^ 53) * ((1 - 1 / 2 ^ 53) * ((1 - 1 / 2 ^ 53) / (1 + 1 / 2 ^ 53))))
               ((1 + 1 / 2 ^ 53) * ((1 + 1 / 2 ^ 53) * ((1 + 1 / 2 ^ 53) / (1 - 1 / 2 ^ 53))))
               (?E * 100) v"
    using v(2) by (rule bracket_trans) simp_all
  have nn: "0 \<le> ?E * 100"
    using E by (rule mult_nonneg_nonneg) simp
  have "bracket (1 - 1 / 2 ^ 50) (1 + 1 / 2 ^ 50) (?E * 100) v"
    using br float64_error_bound nn by (rule bracket_weaken)
  then have "\<bar>v - ?E * 100\<bar> \<le> 1 / 2 ^ 50 * (?E * 100)"
    by (rule bracket_error)
  moreover have "fmul (fdiv (float64_of_int d) (float64_of_int t)) (float64_of_int 100) = Finite False v"
    using q(1) v(1) by (simp add: float64_of_const)
  ultimately show ?thesis
    by auto
qed

lemma average_float64:
  assumes "0 < b" "b < 2 ^ 63" "0 < t" "t < 2 ^ 63"
  shows "\<exists>v. fdiv (fdiv (float64_of_int b) (float64_of_int t)) (float64_of_int 1024) = Finite False v \<and>
           \<bar>v - of_int b / of_int t / 1024\<bar> \<le> of_int b / of_int t / 1024 / 2 ^ 50"
proof -
  let ?E = "of_int b / of_int t :: rat"
  have E: "0 \<le> ?E"
    using assms(1,3) by simp
  from fdiv_of_ints [OF assms] obtain q
    where q: "fdiv (float64_of_int b) (float64_of_int t) = Finite False q"
      "bracket ((1 - 1 / 2 ^ 53) * ((1 - 1 / 2 ^ 53) / (1 + 1 / 2 ^ 53)))
               ((1 + 1 / 2 ^ 53) * ((1 + 1 / 2 ^ 53) / (1 - 1 / 2 ^ 53))) ?E q"
      "1 / 2 ^ 66 \<le> q" "q \<le> 2 ^ 66"
    by blast
  from round_float64_bracket [OF range_scaled(1,2) [OF q(3,4)], of False] obtain v
    where v: "round_float64 False (q / 1024) = Finite False v"
      "bracket (1 - 1 / 2 ^ 53) (1 + 1 / 2 ^ 53) (q / 1024) v"
    by blast
  have "bracket ((1 - 1 / 2 ^ 53) * ((1 - 1 / 2 ^ 53) / (1 + 1 / 2 ^ 53)))
               ((1 + 1 / 2 ^ 53) * ((1 + 1 / 2 ^ 53) / (1 - 1 / 2 ^ 53)))
               (?E / 1024) (q / 1024)"
    using q(2) by (rule bracket_shrink) simp
  then have br: "bracket ((1 - 1 / 2 ^ 53) * ((1 - 1 / 2 ^ 53) * ((1 - 1 / 2 ^ 53) / (1 + 1 / 2 ^ 53))))
               ((1 + 1 / 2 ^ 53) * ((1 + 1 / 2 ^ 53) * ((1 + 1 / 2 ^ 53) / (1 - 1 / 2 ^ 53))))
               (?E / 1024) v"
    using v(2) by (rule bracket_trans) simp_all
  have nn: "0 \<le> ?E / 1024"
    using E by (rule divide_nonneg_nonneg) simp
  have "bracket (1 - 1 / 2 ^ 50) (1 + 1 / 2 ^ 50) (?E / 1024) v"
    using br float64_error_bound nn by (rule bracket_weaken)
  then have "\<bar>v - ?E / 1024\<bar> \<le> 1 / 2 ^ 50 * (?E / 1024)"
    by (rule bracket_error)
  moreover have "fdiv (fdiv (float64_of_int b) (float64_of_int t)) (float64_of_int 1024) = Finite False v"
    using q(1) v(1) by (simp add: float64_of_const)
  ultimately show ?thesis
    by auto
qed

lemma hundredths_error: "\<bar>of_int (round_half_even (v * 100)) / 100 - v\<bar> \<le> 1 / 200"
proof -
  have "\<bar>of_int (round_half_even (v * 100)) - v * 100\<bar> \<le> 1 / 2"
    by (rule round_half_even_error)
  then show ?thesis
    unfolding abs_le_iff by linarith
qed

section \<open>A shutdown without error\<close>

lemma requestHandler_step_frame:
  assumes "requestHandler_step h s = Inr (h', s')"
  shows "main_pc s' = main_pc s" "logged s' = logged s" "listening s' = listening s"
    "pc h \<noteq> HDone"
  using assms by (cases rule: requestHandler_step_cases; auto split: if_splits)+

lemma graceful_handler:
  assumes "graceful s" "handler_step i s = Inr t"
  shows "graceful t"
  using assms(2)
proof (cases rule: handler_step_cases)
  case (step h h' s' before after)
  note f = requestHandler_step_frame [OF step(3)]
  have "\<not> (shutdown_returned (main_pc s) \<and> ''Server shutdown error'' \<notin> set (logged s))"
  proof
    assume "shutdown_returned (main_pc s) \<and> ''Server shutdown error'' \<notin> set (logged s)"
    with assms(1) have "\<forall>h \<in> set (handlers s). pc h = HDone"
      by (simp add: graceful_def)
    with step(1) have "pc h = HDone"
      by simp
    with f(4) show False
      by simp
  qed
  with f(1,2) step(4) show ?thesis
    by (auto simp: graceful_def)
qed

lemma graceful_worker:
  assumes "graceful s" "worker_step j s = Inr t"
  shows "graceful t"
  using assms(2)
  by (cases rule: worker_step_cases) (use assms(1) in \<open>auto simp: graceful_def\<close>)

lemma graceful_main:
  assumes "graceful s" "lifecycle s" "main_step s = Inr t"
  shows "graceful t"
  using assms(3)
proof (cases rule: main_step_cases)
  case idle
  from lifecycleD(8) [OF assms(2)] idle(1)
  have "\<not> listening s \<or> ''Server shutdown error'' \<in> set (logged s)"
    by simp
  with idle show ?thesis
    by (auto simp: graceful_def)
qed (use assms(1) in \<open>auto simp: graceful_def\<close>)

lemma graceful_step:
  assumes "graceful s" "lifecycle s" "step s a = Inr t"
  shows "graceful t"
  using assms(3)
proof (cases rule: step_cases)
  case (Arrive r)
  with assms(1) show ?thesis by (auto simp: graceful_def)
next
  case (Handler i)
  show ?thesis using assms(1) Handler(3) by (rule graceful_handler)
next
  case (Worker j)
  show ?thesis using assms(1) Worker(3) by (rule graceful_worker)
next
  case Signal
  with assms(1) show ?thesis by (auto simp: graceful_def)
next
  case Main
  show ?thesis using assms(1,2) Main(2) by (rule graceful_main)
next
  case ShutdownFails
  then show ?thesis by (auto simp: graceful_def)
qed

lemma graceful_run:
  assumes "inv s" "graceful s" "run s sched = Inr t"
  shows "graceful t"
  using assms
proof (induction sched arbitrary: s)
  case Nil
  then show ?case by simp
next
  case (Cons a sched)
  from Cons.prems(3) obtain s' where s': "step s a = Inr s'" "run s' sched = Inr t"
    by (auto split: sum.splits)
  from Cons.prems(1) s'(1) have "inv s'"
    by (rule inv_step)
  moreover from Cons.prems(1) have "lifecycle s"
    by (simp add: inv_def)
  with Cons.prems(2) have "graceful s'"
    using s'(1) by (rule graceful_step)
  ultimately show ?case
    using s'(2) by (rule Cons.IH)
qed

lemma reachable_graceful: "run (init q w) sched = Inr s \<Longrightarrow> graceful s"
  by (rule graceful_run [OF inv_init]) (simp_all add: graceful_def init_def)

text \<open>
  When \<^verbatim>\<open>main\<close> has printed the report after a shutdown without error, the report is the
  one of the final metrics and no handler was in flight.
\<close>

lemma report_after_graceful_shutdown:
  assumes "run (init q w) sched = Inr s" "main_pc s = MExit"
    "''Server shutdown error'' \<notin> set (logged s)"
  shows "handlers_done s" "\<exists>before. console s = before @ displayMetrics (metrics s) (heap s)"
proof -
  from assms(1) have "graceful s"
    by (rule reachable_graceful)
  with assms(2,3) have "\<forall>h \<in> set (handlers s). pc h = HDone"
    by (simp add: graceful_def)
  then show "handlers_done s"
    by (simp add: handlers_done_def finished_def)
  from assms(1) have "inv s"
    by (rule reachable_inv)
  then have "lifecycle s"
    by (simp add: inv_def)
  from lifecycleD(9) [OF this] assms(2)
  show "\<exists>before. console s = before @ displayMetrics (metrics s) (heap s)"
    by simp
qed

section \<open>The request dump\<close>

lemma raw_in_dump:
  "Printf ''Body:        %s\<newline>'' x \<in> set (dump r) \<longleftrightarrow>
     x = [S (Body r)] \<and> 0 < length (Body r) \<and> length (Body r) \<le> 1024"
  by (auto simp: dump_def dump_body_def Let_def)

lemma placeholder_in_dump:
  "Printf ''Body:        [%d bytes - too large to display]\<newline>'' x \<in> set (dump r) \<longleftrightarrow>
     x = [D (int (length (Body r)))] \<and> 1024 < length (Body r)"
  by (auto simp: dump_def dump_body_def Let_def)

lemma render_raw:
  "render (Printf ''Body:        %s\<newline>'' [S b]) = Some (''Body:        '' @ b @ ''\<newline>'')"
  by simp

lemma render_placeholder:
  "render (Printf ''Body:        [%d bytes - too large to display]\<newline>'' [D k]) =
     Some (''Body:        ['' @ itoa k @ '' bytes - too large to display]\<newline>'')"
  by simp

text \<open>
  C6. A handler at line 123 whose path contains \<^verbatim>\<open>dump\<close> appends the dump to the console. The
  call that prints the raw body is among the calls made exactly when the body has between
  1 and 1024 bytes, and the call that prints the placeholder with the body length exactly
  when the body has more than 1024 bytes; the text written is the body itself,
  respectively \<^verbatim>\<open>[N bytes - too large to display]\<close> with \<open>N\<close> the length in decimal.
\<close>

theorem dump_prints_body_or_placeholder:
  assumes "pc h = H123" and "strings_Contains (Path (ctx h)) ''dump''"
  shows "\<exists>printed.
     requestHandler_step h s = Inr (h\<lparr>pc := H144\<rparr>, s\<lparr>console := console s @ printed\<rparr>) \<and>
     (\<forall>x. Printf ''Body:        %s\<newline>'' x \<in> set printed \<longleftrightarrow>
        x = [S (Body (ctx h))] \<and> 0 < length (Body (ctx h)) \<and> length (Body (ctx h)) \<le> 1024) \<and>
     (\<forall>x. Printf ''Body:        [%d bytes - too large to display]\<newline>'' x \<in> set printed \<longleftrightarrow>
        x = [D (int (length (Body (ctx h))))] \<and> 1024 < length (Body (ctx h))) \<and>
     (0 < length (Body (ctx h)) \<and> length (Body (ctx h)) \<le> 1024 \<longrightarrow>
        Some (''Body:        '' @ Body (ctx h) @ ''\<newline>'') \<in> render ` set printed) \<and>
     (1024 < length (Body (ctx h)) \<longrightarrow>
        Some (''Body:        ['' @ itoa (int (length (Body (ctx h))))
              @ '' bytes - too large to display]\<newline>'') \<in> render ` set printed)"
proof (intro exI conjI)
  show "requestHandler_step h s = Inr (h\<lparr>pc := H144\<rparr>, s\<lparr>console := console s @ dump (ctx h)\<rparr>)"
    using assms by (simp add: requestHandler_step_def)
  show "\<forall>x. Printf ''Body:        %s\<newline>'' x \<in> set (dump (ctx h)) \<longleftrightarrow>
        x = [S (Body (ctx h))] \<and> 0 < length (Body (ctx h)) \<and> length (Body (ctx h)) \<le> 1024"
    by (simp add: raw_in_dump)
  show "\<forall>x. Printf ''Body:        [%d bytes - too large to display]\<newline>'' x \<in> set (dump (ctx h)) \<longleftrightarrow>
        x = [D (int (length (Body (ctx h))))] \<and> 1024 < length (Body (ctx h))"
    by (simp add: placeholder_in_dump)
  show "0 < length (Body (ctx h)) \<and> length (Body (ctx h)) \<le> 1024 \<longrightarrow>
        Some (''Body:        '' @ Body (ctx h) @ ''\<newline>'') \<in> render ` set (dump (ctx h))"
  proof
    assume "0 < length (Body (ctx h)) \<and> length (Body (ctx h)) \<le> 1024"
    then have "Printf ''Body:        %s\<newline>'' [S (Body (ctx h))] \<in> set (dump (ctx h))"
      by (simp add: raw_in_dump)
    then show "Some (''Body:        '' @ Body (ctx h) @ ''\<newline>'') \<in> render ` set (dump (ctx h))"
      using render_raw by (metis image_eqI)
  qed
  show "1024 < length (Body (ctx h)) \<longrightarrow>
        Some (''Body:        ['' @ itoa (int (length (Body (ctx h))))
              @ '' bytes - too large to display]\<newline>'') \<in> render ` set (dump (ctx h))"
  proof
    assume "1024 < length (Body (ctx h))"
    then have "Printf ''Body:        [%d bytes - too large to display]\<newline>''
        [D (int (length (Body (ctx h))))] \<in> set (dump (ctx h))"
      by (simp add: placeholder_in_dump)
    then show "Some (''Body:        ['' @ itoa (int (length (Body (ctx h))))
              @ '' bytes - too large to display]\<newline>'') \<in> render ` set (dump (ctx h))"
      using render_placeholder by (metis image_eqI)
  qed
qed

lemma itoa_2000: "itoa 2000 = ''2000''"
  by code_simp

lemma path_dump_contains: "strings_Contains ''/dump'' ''dump''"
  by code_simp

text \<open>
  The two requests of the scenario: a body of 2000 bytes gives the placeholder line, a body
  of 500 bytes gives the body.
\<close>

theorem dump_prints_body_or_placeholder_witness:
  "pc ((new_handler (dump_request 2000))\<lparr>pc := H123\<rparr>) = H123 \<and>
   strings_Contains (Path (ctx ((new_handler (dump_request 2000))\<lparr>pc := H123\<rparr>))) ''dump'' \<and>
   (\<exists>h' s'. requestHandler_step ((new_handler (dump_request 2000))\<lparr>pc := H123\<rparr>) (init 1 1)
        = Inr (h', s') \<and>
      Some ''Body:        [2000 bytes - too large to display]\<newline>'' \<in> render ` set (console s')) \<and>
   pc ((new_handler (dump_request 500))\<lparr>pc := H123\<rparr>) = H123 \<and>
   strings_Contains (Path (ctx ((new_handler (dump_request 500))\<lparr>pc := H123\<rparr>))) ''dump'' \<and>
   (\<exists>h' s'. requestHandler_step ((new_handler (dump_request 500))\<lparr>pc := H123\<rparr>) (init 1 1)
        = Inr (h', s') \<and>
      Some (''Body:        '' @ replicate 500 CHR ''x'' @ ''\<newline>'') \<in> render ` set (console s'))"
proof -
  let ?h = "\<lambda>n. (new_handler (dump_request n))\<lparr>pc := H123\<rparr>"
  have a: "pc (?h n) = H123" for n
    by simp
  have b: "strings_Contains (Path (ctx (?h n))) ''dump''" for n
    using path_dump_contains by (simp add: new_handler_def dump_request_def)
  have c: "length (Body (ctx (?h n))) = n" "Body (ctx (?h n)) = replicate n CHR ''x''" for n
    by (simp_all add: new_handler_def dump_request_def)
  have e: "console (init 1 1) = []"
    by (simp add: init_def)
  from dump_prints_body_or_placeholder [OF a b, of 2000 "init 1 1"]
  have "\<exists>h' s'. requestHandler_step (?h 2000) (init 1 1) = Inr (h', s') \<and>
      Some ''Body:        [2000 bytes - too large to display]\<newline>'' \<in> render ` set (console s')"
    unfolding c e by (auto simp: itoa_2000)
  moreover
  from dump_prints_body_or_placeholder [OF a b, of 500 "init 1 1"]
  have "\<exists>h' s'. requestHandler_step (?h 500) (init 1 1) = Inr (h', s') \<and>
      Some (''Body:        '' @ replicate 500 CHR ''x'' @ ''\<newline>'') \<in> render ` set (console s')"
    unfolding c e by auto
  ultimately show ?thesis
    using a b by blast
qed

section \<open>The final report\<close>

lemma dropped_count_in_report:
  "Printf ''Dropped Bodies:     %d'' x \<in> set (displayMetrics m hp) \<longleftrightarrow>
     x = [D (sint (droppedBodies m))]"
  by (auto simp: displayMetrics_def Let_def)

lemma percentage_in_report:
  "Printf '' (%.2f%% of requests)'' x \<in> set (displayMetrics m hp) \<longleftrightarrow>
     0 <s droppedBodies m \<and>
     x = [F (Mul (Div (OfInt64 (droppedBodies m)) (OfInt64 (totalRequests m))) (Const 100))]"
  by (auto simp: displayMetrics_def Let_def)

lemma average_in_report:
  "Printf ''Average Body Size:  %.2f KB\<newline>'' x \<in> set (displayMetrics m hp) \<longleftrightarrow>
     0 <s totalBodySize m \<and>
     x = [F (Div (Div (OfInt64 (totalBodySize m)) (OfInt64 (totalRequests m))) (Const 1024))]"
  by (auto simp: displayMetrics_def Let_def)

lemma zero_case_in_report:
  "Printf ''Average Body Size:  0 KB (no request bodies)\<newline>'' x \<in> set (displayMetrics m hp) \<longleftrightarrow>
     \<not> 0 <s totalBodySize m \<and> x = []"
  by (auto simp: displayMetrics_def Let_def)

lemma render_percentage:
  "render (Printf '' (%.2f%% of requests)'' [F e])
     = Some ('' ('' @ format_float 2 (f64_val e) @ ''% of requests)'')"
  by (simp add: is_digit_def digit_val_def)

lemma render_average:
  "render (Printf ''Average Body Size:  %.2f KB\<newline>'' [F e])
     = Some (''Average Body Size:  '' @ format_float 2 (f64_val e) @ '' KB\<newline>'')"
  by (simp add: is_digit_def digit_val_def)

lemma positive_int64:
  assumes "0 <s (x :: int64)"
  shows "0 < sint x" "sint x < 2 ^ 63"
  using assms sint_lt [of x] by (simp_all add: word_sless_alt)

text \<open>
  The number printed for a positive \<^verbatim>\<open>float64\<close> \<open>v\<close> that is within the relative error
  \<open>2 ^ - 50\<close> of \<open>x\<close>.
\<close>

lemma printed_error:
  assumes "\<bar>v - x\<bar> \<le> x / 2 ^ 50"
  shows "\<bar>rat_of_int (round_half_even (v * 100)) / 100 - x\<bar> \<le> 1 / 200 + x / 2 ^ 50"
proof -
  have "\<bar>rat_of_int (round_half_even (v * 100)) / 100 - v\<bar> \<le> 1 / 200"
    by (rule hundredths_error)
  with assms show ?thesis
    unfolding abs_le_iff by linarith
qed

text \<open>
  C9 as stated does not hold: the numbers of the report are computed in \<^verbatim>\<open>float64\<close> and
  printed with \<^verbatim>\<open>%.2f\<close>, and what is printed need not be the exact quotient to two decimal
  places. After five requests that brought 384 bytes the average is \<open>384 / 5 / 1024 = 0.075\<close>
  and the report shows \<^verbatim>\<open>0.07\<close>, where the nearest number with two decimals that the same
  formatter gives for the exact quotient is \<^verbatim>\<open>0.08\<close>; after one request of 384 bytes the
  average is \<open>0.375\<close> and the report shows \<^verbatim>\<open>0.38\<close>, so the report does not cut off the third
  decimal either.
\<close>

theorem two_decimal_places_counterexample:
  "run (init 1 1) five_requests = Inr after_five_requests \<and>
   totalBodySize (metrics after_five_requests) = 384 \<and>
   totalRequests (metrics after_five_requests) = 5 \<and>
   Printf ''Average Body Size:  %.2f KB\<newline>'' [F (Div (Div (OfInt64 384) (OfInt64 5)) (Const 1024))]
     \<in> set (console after_five_requests) \<and>
   render (Printf ''Average Body Size:  %.2f KB\<newline>''
             [F (Div (Div (OfInt64 384) (OfInt64 5)) (Const 1024))])
     = Some ''Average Body Size:  0.07 KB\<newline>'' \<and>
   (384 / 5 / 1024 :: rat) = 75 / 1000 \<and>
   fixed_digits 2 (round_half_even (384 / 5 / 1024 * 100)) = ''0.08'' \<and>
   run (init 1 1) (bytes_384 @ shutdown_one_worker) = Inr after_one_request \<and>
   totalBodySize (metrics after_one_request) = 384 \<and>
   totalRequests (metrics after_one_request) = 1 \<and>
   Printf ''Average Body Size:  %.2f KB\<newline>'' [F (Div (Div (OfInt64 384) (OfInt64 1)) (Const 1024))]
     \<in> set (console after_one_request) \<and>
   render (Printf ''Average Body Size:  %.2f KB\<newline>''
             [F (Div (Div (OfInt64 384) (OfInt64 1)) (Const 1024))])
     = Some ''Average Body Size:  0.38 KB\<newline>'' \<and>
   (384 / 1 / 1024 :: rat) = 375 / 1000"
proof -
  have "\<not> isl (run (init 1 1) five_requests)"
    by code_simp
  then have r5: "run (init 1 1) five_requests = Inr after_five_requests"
    unfolding after_five_requests_def by (rule projr_run)
  have v5: "totalBodySize (metrics after_five_requests) = 384"
    "totalRequests (metrics after_five_requests) = 5"
    "Printf ''Average Body Size:  %.2f KB\<newline>'' [F (Div (Div (OfInt64 384) (OfInt64 5)) (Const 1024))]
       \<in> set (console after_five_requests)"
    unfolding after_five_requests_def by code_simp+
  have p5: "render (Printf ''Average Body Size:  %.2f KB\<newline>''
             [F (Div (Div (OfInt64 384) (OfInt64 5)) (Const 1024))])
     = Some ''Average Body Size:  0.07 KB\<newline>''"
    by code_simp
  have e5: "(384 / 5 / 1024 :: rat) = 75 / 1000"
    by simp
  have n5: "fixed_digits 2 (round_half_even (384 / 5 / 1024 * 100)) = ''0.08''"
    by code_simp
  have "\<not> isl (run (init 1 1) (bytes_384 @ shutdown_one_worker))"
    by code_simp
  then have r1: "run (init 1 1) (bytes_384 @ shutdown_one_worker) = Inr after_one_request"
    unfolding after_one_request_def by (rule projr_run)
  have v1: "totalBodySize (metrics after_one_request) = 384"
    "totalRequests (metrics after_one_request) = 1"
    "Printf ''Average Body Size:  %.2f KB\<newline>'' [F (Div (Div (OfInt64 384) (OfInt64 1)) (Const 1024))]
       \<in> set (console after_one_request)"
    unfolding after_one_request_def by code_simp+
  have p1: "render (Printf ''Average Body Size:  %.2f KB\<newline>''
             [F (Div (Div (OfInt64 384) (OfInt64 1)) (Const 1024))])
     = Some ''Average Body Size:  0.38 KB\<newline>''"
    by code_simp
  have e1: "(384 / 1 / 1024 :: rat) = 375 / 1000"
    by simp
  show ?thesis
    by (intro conjI) (fact r5 v5 p5 e5 n5 r1 v1 p1 e1)+
qed

text \<open>
  C9, amended. In the report of \<^verbatim>\<open>displayMetrics\<close> the dropped-body count is always printed; the
  percentage is printed exactly when \<^verbatim>\<open>droppedBodies > 0\<close> and is
  \<^verbatim>\<open>float64(droppedBodies) / float64(totalRequests) * 100\<close>; the average body size is printed
  exactly when \<^verbatim>\<open>totalBodySize > 0\<close> and is \<^verbatim>\<open>float64(totalBodySize) / float64(totalRequests) / 1024\<close>;
  otherwise, and so when \<^verbatim>\<open>totalBodySize\<close> is 0, the line \<^verbatim>\<open>0 KB (no request bodies)\<close> is printed
  instead. For \<^verbatim>\<open>totalRequests > 0\<close> the \<^verbatim>\<open>float64\<close> value \<open>v\<close> is within the relative error
  \<open>2 ^ - 50\<close> of the exact quotient, and what is printed is the number with two decimals
  nearest to \<open>v\<close>: it differs from the exact quotient by at most \<open>0.005\<close> plus that error.
\<close>

theorem displayMetrics_report:
  "Printf ''Dropped Bodies:     %d'' [D (sint (droppedBodies m))] \<in> set (displayMetrics m hp) \<and>
   (\<forall>x. Printf '' (%.2f%% of requests)'' x \<in> set (displayMetrics m hp) \<longleftrightarrow>
      0 <s droppedBodies m \<and>
      x = [F (Mul (Div (OfInt64 (droppedBodies m)) (OfInt64 (totalRequests m))) (Const 100))]) \<and>
   (\<forall>x. Printf ''Average Body Size:  %.2f KB\<newline>'' x \<in> set (displayMetrics m hp) \<longleftrightarrow>
      0 <s totalBodySize m \<and>
      x = [F (Div (Div (OfInt64 (totalBodySize m)) (OfInt64 (totalRequests m))) (Const 1024))]) \<and>
   (\<forall>x. Printf ''Average Body Size:  0 KB (no request bodies)\<newline>'' x \<in> set (displayMetrics m hp) \<longleftrightarrow>
      \<not> 0 <s totalBodySize m \<and> x = []) \<and>
   (totalBodySize m = 0 \<longrightarrow>
      Printf ''Average Body Size:  0 KB (no request bodies)\<newline>'' [] \<in> set (displayMetrics m hp)) \<and>
   (0 <s droppedBodies m \<and> 0 <s totalRequests m \<longrightarrow>
      (\<exists>v. f64_val (Mul (Div (OfInt64 (droppedBodies m)) (OfInt64 (totalRequests m))) (Const 100))
              = Finite False v \<and>
            \<bar>v - of_int (sint (droppedBodies m)) / of_int (sint (totalRequests m)) * 100\<bar>
              \<le> of_int (sint (droppedBodies m)) / of_int (sint (totalRequests m)) * 100 / 2 ^ 50 \<and>
            render (Printf '' (%.2f%% of requests)''
                      [F (Mul (Div (OfInt64 (droppedBodies m)) (OfInt64 (totalRequests m))) (Const 100))])
              = Some ('' ('' @ fixed_digits 2 (round_half_even (v * 100)) @ ''% of requests)'') \<and>
            \<bar>rat_of_int (round_half_even (v * 100)) / 100
               - of_int (sint (droppedBodies m)) / of_int (sint (totalRequests m)) * 100\<bar>
              \<le> 1 / 200
                 + of_int (sint (droppedBodies m)) / of_int (sint (totalRequests m)) * 100 / 2 ^ 50)) \<and>
   (0 <s totalBodySize m \<and> 0 <s totalRequests m \<longrightarrow>
      (\<exists>v. f64_val (Div (Div (OfInt64 (totalBodySize m)) (OfInt64 (totalRequests m))) (Const 1024))
              = Finite False v \<and>
            \<bar>v - of_int (sint (totalBodySize m)) / of_int (sint (totalRequests m)) / 1024\<bar>
              \<le> of_int (sint (totalBodySize m)) / of_int (sint (totalRequests m)) / 1024 / 2 ^ 50 \<and>
            render (Printf ''Average Body Size:  %.2f KB\<newline>''
                      [F (Div (Div (OfInt64 (totalBodySize m)) (OfInt64 (totalRequests m))) (Const 1024))])
              = Some (''Average Body Size:  '' @ fixed_digits 2 (round_half_even (v * 100))
                      @ '' KB\<newline>'') \<and>
            \<bar>rat_of_int (round_half_even (v * 100)) / 100
               - of_int (sint (totalBodySize m)) / of_int (sint (totalRequests m)) / 1024\<bar>
              \<le> 1 / 200
                 + of_int (sint (totalBodySize m)) / of_int (sint (totalRequests m)) / 1024 / 2 ^ 50))"
proof -
  have count: "Printf ''Dropped Bodies:     %d'' [D (sint (droppedBodies m))]
      \<in> set (displayMetrics m hp)"
    by (simp add: dropped_count_in_report)
  have zero: "totalBodySize m = 0 \<longrightarrow>
      Printf ''Average Body Size:  0 KB (no request bodies)\<newline>'' [] \<in> set (displayMetrics m hp)"
    by (simp add: zero_case_in_report)
  let ?d = "sint (droppedBodies m)" and ?t = "sint (totalRequests m)"
    and ?b = "sint (totalBodySize m)"
  have pct: "\<exists>v. f64_val (Mul (Div (OfInt64 (droppedBodies m)) (OfInt64 (totalRequests m))) (Const 100))
              = Finite False v \<and>
            \<bar>v - of_int ?d / of_int ?t * 100\<bar> \<le> of_int ?d / of_int ?t * 100 / 2 ^ 50 \<and>
            render (Printf '' (%.2f%% of requests)''
                      [F (Mul (Div (OfInt64 (droppedBodies m)) (OfInt64 (totalRequests m))) (Const 100))])
              = Some ('' ('' @ fixed_digits 2 (round_half_even (v * 100)) @ ''% of requests)'') \<and>
            \<bar>rat_of_int (round_half_even (v * 100)) / 100 - of_int ?d / of_int ?t * 100\<bar>
              \<le> 1 / 200 + of_int ?d / of_int ?t * 100 / 2 ^ 50"
    if "0 <s droppedBodies m" "0 <s totalRequests m"
  proof -
    from percentage_float64 [OF positive_int64 [OF that(1)] positive_int64 [OF that(2)]]
    obtain v where v: "fmul (fdiv (float64_of_int ?d) (float64_of_int ?t)) (float64_of_int 100)
          = Finite False v"
        "\<bar>v - of_int ?d / of_int ?t * 100\<bar> \<le> of_int ?d / of_int ?t * 100 / 2 ^ 50"
      by blast
    from v(1) have val: "f64_val (Mul (Div (OfInt64 (droppedBodies m)) (OfInt64 (totalRequests m)))
        (Const 100)) = Finite False v"
      by simp
    have "render (Printf '' (%.2f%% of requests)''
                      [F (Mul (Div (OfInt64 (droppedBodies m)) (OfInt64 (totalRequests m))) (Const 100))])
              = Some ('' ('' @ fixed_digits 2 (round_half_even (v * 100)) @ ''% of requests)'')"
      unfolding render_percentage val by simp
    with val v(2) printed_error [OF v(2)] show ?thesis
      by blast
  qed
  have avg: "\<exists>v. f64_val (Div (Div (OfInt64 (totalBodySize m)) (OfInt64 (totalRequests m))) (Const 1024))
              = Finite False v \<and>
            \<bar>v - of_int ?b / of_int ?t / 1024\<bar> \<le> of_int ?b / of_int ?t / 1024 / 2 ^ 50 \<and>
            render (Printf ''Average Body Size:  %.2f KB\<newline>''
                      [F (Div (Div (OfInt64 (totalBodySize m)) (OfInt64 (totalRequests m))) (Const 1024))])
              = Some (''Average Body Size:  '' @ fixed_digits 2 (round_half_even (v * 100))
                      @ '' KB\<newline>'') \<and>
            \<bar>rat_of_int (round_half_even (v * 100)) / 100 - of_int ?b / of_int ?t / 1024\<bar>
              \<le> 1 / 200 + of_int ?b / of_int ?t / 1024 / 2 ^ 50"
    if "0 <s totalBodySize m" "0 <s totalRequests m"
  proof -
    from average_float64 [OF positive_int64 [OF that(1)] positive_int64 [OF that(2)]]
    obtain v where v: "fdiv (fdiv (float64_of_int ?b) (float64_of_int ?t)) (float64_of_int 1024)
          = Finite False v"
        "\<bar>v - of_int ?b / of_int ?t / 1024\<bar> \<le> of_int ?b / of_int ?t / 1024 / 2 ^ 50"
      by blast
    from v(1) have val: "f64_val (Div (Div (OfInt64 (totalBodySize m)) (OfInt64 (totalRequests m)))
        (Const 1024)) = Finite False v"
      by simp
    have "render (Printf ''Average Body Size:  %.2f KB\<newline>''
                      [F (Div (Div (OfInt64 (totalBodySize m)) (OfInt64 (totalRequests m))) (Const 1024))])
              = Some (''Average Body Size:  '' @ fixed_digits 2 (round_half_even (v * 100))
                      @ '' KB\<newline>'')"
      unfolding render_average val by simp
    with val v(2) printed_error [OF v(2)] show ?thesis
      by blast
  qed
  from count percentage_in_report average_in_report zero_case_in_report zero pct avg
  show ?thesis
    by (intro conjI allI impI) (blast | simp)+
qed

text \<open>
  After mixed traffic (4 requests, 2048 bytes consumed, 1 body dropped) the report shows
  \<^verbatim>\<open>25.00%\<close> and \<^verbatim>\<open>0.50 KB\<close>; without any body it shows the zero-case line and no percentage.
\<close>

theorem displayMetrics_report_witness:
  "0 <s droppedBodies mixed_metrics \<and>
   0 <s totalBodySize mixed_metrics \<and>
   0 <s totalRequests mixed_metrics \<and>
   Printf '' (%.2f%% of requests)'' [F (Mul (Div (OfInt64 1) (OfInt64 4)) (Const 100))]
     \<in> set (displayMetrics mixed_metrics [3, 1]) \<and>
   Printf ''Average Body Size:  %.2f KB\<newline>'' [F (Div (Div (OfInt64 2048) (OfInt64 4)) (Const 1024))]
     \<in> set (displayMetrics mixed_metrics [3, 1]) \<and>
   (\<exists>v. f64_val (Mul (Div (OfInt64 1) (OfInt64 4)) (Const 100)) = Finite False v \<and>
        \<bar>v - 25\<bar> \<le> 25 / 2 ^ 50 \<and>
        render (Printf '' (%.2f%% of requests)'' [F (Mul (Div (OfInt64 1) (OfInt64 4)) (Const 100))])
          = Some ('' ('' @ fixed_digits 2 (round_half_even (v * 100)) @ ''% of requests)'') \<and>
        \<bar>rat_of_int (round_half_even (v * 100)) / 100 - 25\<bar> \<le> 1 / 200 + 25 / 2 ^ 50) \<and>
   (\<exists>v. f64_val (Div (Div (OfInt64 2048) (OfInt64 4)) (Const 1024)) = Finite False v \<and>
        \<bar>v - 1 / 2\<bar> \<le> 1 / 2 / 2 ^ 50 \<and>
        render (Printf ''Average Body Size:  %.2f KB\<newline>''
                  [F (Div (Div (OfInt64 2048) (OfInt64 4)) (Const 1024))])
          = Some (''Average Body Size:  '' @ fixed_digits 2 (round_half_even (v * 100))
                  @ '' KB\<newline>'') \<and>
        \<bar>rat_of_int (round_half_even (v * 100)) / 100 - 1 / 2\<bar> \<le> 1 / 200 + 1 / 2 / 2 ^ 50) \<and>
   render (Printf '' (%.2f%% of requests)'' [F (Mul (Div (OfInt64 1) (OfInt64 4)) (Const 100))])
     = Some '' (25.00% of requests)'' \<and>
   render (Printf ''Average Body Size:  %.2f KB\<newline>''
             [F (Div (Div (OfInt64 2048) (OfInt64 4)) (Const 1024))])
     = Some ''Average Body Size:  0.50 KB\<newline>'' \<and>
   totalBodySize bodyless_metrics = 0 \<and>
   Printf ''Average Body Size:  0 KB (no request bodies)\<newline>'' []
     \<in> set (displayMetrics bodyless_metrics [2]) \<and>
   (\<forall>x. Printf '' (%.2f%% of requests)'' x \<notin> set (displayMetrics bodyless_metrics [2]))"
proof -
  have m: "totalRequests mixed_metrics = 4" "totalBodySize mixed_metrics = 2048"
    "droppedBodies mixed_metrics = 1"
    by (simp_all add: mixed_metrics_def)
  have b: "totalRequests bodyless_metrics = 2" "totalBodySize bodyless_metrics = 0"
    "droppedBodies bodyless_metrics = 0"
    by (simp_all add: bodyless_metrics_def)
  have pos: "(0 :: int64) <s 1" "(0 :: int64) <s 2048" "(0 :: int64) <s 4" "\<not> (0 :: int64) <s 0"
    by (simp_all add: word_sless_alt)
  have s: "sint (1 :: int64) = 1" "sint (4 :: int64) = 4" "sint (2048 :: int64) = 2048"
    by simp_all
  have q: "(1 :: rat) / 4 * 100 = 25" "(2048 :: rat) / 4 / 1024 = 1 / 2"
    by simp_all
  note t = displayMetrics_report [of mixed_metrics "[3, 1]", unfolded m]
  note u = displayMetrics_report [of bodyless_metrics "[2]", unfolded b]
  from t pos have l1: "Printf '' (%.2f%% of requests)'' [F (Mul (Div (OfInt64 1) (OfInt64 4)) (Const 100))]
     \<in> set (displayMetrics mixed_metrics [3, 1])"
    by blast
  from t pos have l2: "Printf ''Average Body Size:  %.2f KB\<newline>''
      [F (Div (Div (OfInt64 2048) (OfInt64 4)) (Const 1024))]
     \<in> set (displayMetrics mixed_metrics [3, 1])"
    by blast
  from t pos have "\<exists>v. f64_val (Mul (Div (OfInt64 1) (OfInt64 4)) (Const 100)) = Finite False v \<and>
        \<bar>v - of_int (sint (1 :: int64)) / of_int (sint (4 :: int64)) * 100\<bar>
          \<le> of_int (sint (1 :: int64)) / of_int (sint (4 :: int64)) * 100 / 2 ^ 50 \<and>
        render (Printf '' (%.2f%% of requests)'' [F (Mul (Div (OfInt64 1) (OfInt64 4)) (Const 100))])
          = Some ('' ('' @ fixed_digits 2 (round_half_even (v * 100)) @ ''% of requests)'') \<and>
        \<bar>rat_of_int (round_half_even (v * 100)) / 100
           - of_int (sint (1 :: int64)) / of_int (sint (4 :: int64)) * 100\<bar>
          \<le> 1 / 200 + of_int (sint (1 :: int64)) / of_int (sint (4 :: int64)) * 100 / 2 ^ 50"
    by blast
  then have e1: "\<exists>v. f64_val (Mul (Div (OfInt64 1) (OfInt64 4)) (Const 100)) = Finite False v \<and>
        \<bar>v - 25\<bar> \<le> 25 / 2 ^ 50 \<and>
        render (Printf '' (%.2f%% of requests)'' [F (Mul (Div (OfInt64 1) (OfInt64 4)) (Const 100))])
          = Some ('' ('' @ fixed_digits 2 (round_half_even (v * 100)) @ ''% of requests)'') \<and>
        \<bar>rat_of_int (round_half_even (v * 100)) / 100 - 25\<bar> \<le> 1 / 200 + 25 / 2 ^ 50"
    unfolding s of_int_1 of_int_numeral q .
  from t pos have "\<exists>v. f64_val (Div (Div (OfInt64 2048) (OfInt64 4)) (Const 1024)) = Finite False v \<and>
        \<bar>v - of_int (sint (2048 :: int64)) / of_int (sint (4 :: int64)) / 1024\<bar>
          \<le> of_int (sint (2048 :: int64)) / of_int (sint (4 :: int64)) / 1024 / 2 ^ 50 \<and>
        render (Printf ''Average Body Size:  %.2f KB\<newline>''
                  [F (Div (Div (OfInt64 2048) (OfInt64 4)) (Const 1024))])
          = Some (''Average Body Size:  '' @ fixed_digits 2 (round_half_even (v * 100))
                  @ '' KB\<newline>'') \<and>
        \<bar>rat_of_int (round_half_even (v * 100)) / 100
           - of_int (sint (2048 :: int64)) / of_int (sint (4 :: int64)) / 1024\<bar>
          \<le> 1 / 200 + of_int (sint (2048 :: int64)) / of_int (sint (4 :: int64)) / 1024 / 2 ^ 50"
    by blast
  then have e2: "\<exists>v. f64_val (Div (Div (OfInt64 2048) (OfInt64 4)) (Const 1024)) = Finite False v \<and>
        \<bar>v - 1 / 2\<bar> \<le> 1 / 2 / 2 ^ 50 \<and>
        render (Printf ''Average Body Size:  %.2f KB\<newline>''
                  [F (Div (Div (OfInt64 2048) (OfInt64 4)) (Const 1024))])
          = Some (''Average Body Size:  '' @ fixed_digits 2 (round_half_even (v * 100))
                  @ '' KB\<newline>'') \<and>
        \<bar>rat_of_int (round_half_even (v * 100)) / 100 - 1 / 2\<bar> \<le> 1 / 200 + 1 / 2 / 2 ^ 50"
    unfolding s of_int_numeral q .
  have p1: "render (Printf '' (%.2f%% of requests)'' [F (Mul (Div (OfInt64 1) (OfInt64 4)) (Const 100))])
     = Some '' (25.00% of requests)''"
    by code_simp
  have p2: "render (Printf ''Average Body Size:  %.2f KB\<newline>''
             [F (Div (Div (OfInt64 2048) (OfInt64 4)) (Const 1024))])
     = Some ''Average Body Size:  0.50 KB\<newline>''"
    by code_simp
  from u b pos have l3: "Printf ''Average Body Size:  0 KB (no request bodies)\<newline>'' []
     \<in> set (displayMetrics bodyless_metrics [2])"
    by blast
  from u pos have l4: "\<forall>x. Printf '' (%.2f%% of requests)'' x \<notin> set (displayMetrics bodyless_metrics [2])"
    by blast
  from pos m have h: "0 <s droppedBodies mixed_metrics" "0 <s totalBodySize mixed_metrics"
    "0 <s totalRequests mixed_metrics"
    by simp_all
  show ?thesis
    by (intro conjI) (fact h l1 l2 e1 e2 p1 p2 b l3 l4)+
qed

section \<open>Requests, bodies and drops when the queue never saturates\<close>

text \<open>
  C1. After any schedule in which \<open>N\<close> requests arrived, each with a non-empty body, no
  push was rejected, every handler has finished and the workers have drained the queue:
  \<^verbatim>\<open>totalRequests\<close> is \<open>N\<close>, \<^verbatim>\<open>totalBodySize\<close> is the sum of the body lengths and
  \<^verbatim>\<open>droppedBodies\<close> is 0. The counters are \<^verbatim>\<open>int64\<close>: the equalities hold as such, and
  as equalities of integers below \<open>2 ^ 63\<close>.
\<close>

theorem all_bodies_counted:
  assumes "run (init queueSize nworkers) sched = Inr s"
    and "with_bodies sched" and "never_saturated s"
    and "handlers_done s" and "drained s"
  shows "totalRequests (metrics s) = of_nat (length (requests sched)) \<and>
         totalBodySize (metrics s) = of_nat (sum_list (map (\<lambda>r. length (Body r)) (requests sched))) \<and>
         droppedBodies (metrics s) = 0 \<and>
         (length (requests sched) < 2 ^ 63 \<longrightarrow>
            sint (totalRequests (metrics s)) = int (length (requests sched))) \<and>
         (sum_list (map (\<lambda>r. length (Body r)) (requests sched)) < 2 ^ 63 \<longrightarrow>
            sint (totalBodySize (metrics s))
            = int (sum_list (map (\<lambda>r. length (Body r)) (requests sched))))"
proof -
  from assms(1) have "inv s" by (rule reachable_inv)
  then have a: "acct s" by (simp add: inv_def)
  from assms(1) have rs: "map ctx (handlers s) = requests sched"
    by (rule requests_reachable)
  then have len: "length (handlers s) = length (requests sched)"
    by (metis length_map)
  have total: "totalRequests (metrics s) = of_nat (length (requests sched))"
    using done_counted [OF a assms(4)] len by simp
  have "cnt (\<lambda>h. pushed h = Rejected) (handlers s) = 0"
    using assms(3) by (simp add: never_saturated_def cnt_zero_iff)
  then have dropped: "droppedBodies (metrics s) = 0"
    using done_dropped [OF a assms(4)] by simp
  have "\<forall>h \<in> set (handlers s). rejected_len h = 0"
    using assms(3) by (simp add: never_saturated_def rejected_len_def)
  then have zero: "sum_list (map rejected_len (handlers s)) = 0"
    by simp
  have enq: "sum_list (map enqueued_len (handlers s))
      = sum_list (map (\<lambda>r. length (Body r)) (requests sched))"
    using done_bytes [OF a assms(4)] body_bytes_requests [OF rs] zero by linarith
  from a obtain c where c: "totalBodySize (metrics s) = of_nat c"
    "c + queued_bytes s = sum_list (map enqueued_len (handlers s))"
    by (rule acctE)
  have "c = sum_list (map (\<lambda>r. length (Body r)) (requests sched))"
    using c(2) enq drained_queued_bytes [OF assms(5)] by linarith
  with c(1) have bytes: "totalBodySize (metrics s)
      = of_nat (sum_list (map (\<lambda>r. length (Body r)) (requests sched)))"
    by simp
  show ?thesis
    using total bytes dropped by (simp add: sint_of_nat_int64)
qed

theorem all_bodies_counted_witness:
  "run (init 2 1) two_posts = Inr after_two_posts \<and>
   with_bodies two_posts \<and> never_saturated after_two_posts \<and>
   handlers_done after_two_posts \<and> drained after_two_posts \<and>
   length (requests two_posts) = 2 \<and>
   sum_list (map (\<lambda>r. length (Body r)) (requests two_posts)) = 5 \<and>
   totalRequests (metrics after_two_posts) = 2 \<and>
   totalBodySize (metrics after_two_posts) = 5 \<and>
   droppedBodies (metrics after_two_posts) = 0 \<and>
   sint (totalRequests (metrics after_two_posts)) = 2 \<and>
   sint (totalBodySize (metrics after_two_posts)) = 5"
proof -
  have "\<not> isl (run (init 2 1) two_posts)"
    by code_simp
  then have r: "run (init 2 1) two_posts = Inr after_two_posts"
    unfolding after_two_posts_def by (rule projr_run)
  have h: "with_bodies two_posts" "never_saturated after_two_posts"
    "handlers_done after_two_posts" "drained after_two_posts"
    unfolding after_two_posts_def by code_simp+
  have n: "length (requests two_posts) = 2"
    "sum_list (map (\<lambda>r. length (Body r)) (requests two_posts)) = 5"
    by code_simp+
  from all_bodies_counted [OF r h] show ?thesis
    using r h unfolding n by simp
qed

section \<open>Requests and method counters\<close>

text \<open>
  C2. After any schedule, when no handler is in flight, \<^verbatim>\<open>totalRequests\<close> is the sum of
  the counters of \<^verbatim>\<open>methodCounts\<close> (computed in \<^verbatim>\<open>int64\<close>, and as a sum of integers when
  fewer than \<open>2 ^ 63\<close> requests arrived), and it is the number of requests: every finished
  handler has added one to \<^verbatim>\<open>totalRequests\<close> and one to the counter of its method.
\<close>

theorem totalRequests_is_sum_of_methodCounts:
  assumes "run (init queueSize nworkers) sched = Inr s" and "handlers_done s"
  shows "totalRequests (metrics s) = sum_methodCounts s \<and>
         totalRequests (metrics s) = of_nat (length (requests sched)) \<and>
         (length (requests sched) < 2 ^ 63 \<longrightarrow>
            sint (totalRequests (metrics s))
            = sum_list (map (\<lambda>(m, a). sint (heap s ! a)) (methodCounts (metrics s))))"
proof -
  from assms(1) have "inv s" by (rule reachable_inv)
  then have a: "acct s" and r: "registry s"
    by (simp_all add: inv_def)
  from assms(1) have "map ctx (handlers s) = requests sched"
    by (rule requests_reachable)
  then have len: "length (handlers s) = length (requests sched)"
    by (metis length_map)
  have fin: "cnt finished (handlers s) = length (handlers s)"
    using assms(2) by (intro cnt_all) (simp add: handlers_done_def)
  have total: "totalRequests (metrics s) = of_nat (length (handlers s))"
    using a assms(2) by (rule done_counted)
  have "totalRequests (metrics s) = sum_methodCounts s"
    using total sum_methodCounts_value [OF r] fin by simp
  moreover have "sint (totalRequests (metrics s))
      = sum_list (map (\<lambda>(m, a). sint (heap s ! a)) (methodCounts (metrics s)))"
    if "length (requests sched) < 2 ^ 63"
    using that total len fin sum_methodCounts_sint [OF r] by (simp add: sint_of_nat_int64)
  ultimately show ?thesis
    using total len by simp
qed

theorem totalRequests_is_sum_of_methodCounts_witness:
  "run (init 1 0) three_requests = Inr after_three_requests \<and>
   handlers_done after_three_requests \<and>
   length (requests three_requests) = 3 \<and>
   totalRequests (metrics after_three_requests) = 3 \<and>
   method_count after_three_requests ''POST'' = Some 2 \<and>
   method_count after_three_requests ''GET'' = Some 1 \<and>
   sum_methodCounts after_three_requests = 3 \<and>
   sum_list (map (\<lambda>(m, a). sint (heap after_three_requests ! a))
     (methodCounts (metrics after_three_requests))) = 3"
proof -
  have "\<not> isl (run (init 1 0) three_requests)"
    by code_simp
  then have r: "run (init 1 0) three_requests = Inr after_three_requests"
    unfolding after_three_requests_def by (rule projr_run)
  have h: "handlers_done after_three_requests"
    unfolding after_three_requests_def by code_simp
  have n: "length (requests three_requests) = 3"
    by code_simp
  have v: "totalRequests (metrics after_three_requests) = 3"
    "method_count after_three_requests ''POST'' = Some 2"
    "method_count after_three_requests ''GET'' = Some 1"
    unfolding after_three_requests_def by code_simp+
  from totalRequests_is_sum_of_methodCounts [OF r h] show ?thesis
    using r h v unfolding n by simp
qed

section \<open>The lazily created method counters\<close>

text \<open>
  C5. In every state of every schedule the map has one entry per key and as many counter
  objects have been allocated as there are keys, so no method ever gets a second object;
  the counter of a method holds the number of handlers of that method that have executed
  line 188, so no increment is lost. When no handler is in flight, \<^verbatim>\<open>methodCounts[m]\<close>
  exists exactly for the methods of the requests that arrived, and its value is the number
  of requests with that method (in \<^verbatim>\<open>int64\<close>, and as an integer below \<open>2 ^ 63\<close> requests).
\<close>

theorem methodCounts_exact:
  assumes "run (init queueSize nworkers) sched = Inr s"
  shows "distinct (map fst (methodCounts (metrics s))) \<and>
         length (heap s) = length (methodCounts (metrics s)) \<and>
         (\<forall>m a. map_of (methodCounts (metrics s)) m = Some a \<longrightarrow>
            a < length (heap s) \<and>
            heap s ! a = of_nat (cnt (\<lambda>h. Method (ctx h) = m \<and> finished h) (handlers s))) \<and>
         (handlers_done s \<longrightarrow>
            (\<forall>m. method_count s m =
               (if m \<in> Method ` set (requests sched)
                then Some (of_nat (cnt (\<lambda>r. Method r = m) (requests sched))) else None))) \<and>
         (handlers_done s \<and> length (requests sched) < 2 ^ 63 \<longrightarrow>
            (\<forall>m v. method_count s m = Some v \<longrightarrow>
               sint v = int (cnt (\<lambda>r. Method r = m) (requests sched))))"
proof -
  from assms have "inv s" by (rule reachable_inv)
  then have r: "registry s"
    by (simp add: inv_def)
  note rd = registryD [OF r]
  let ?mc = "methodCounts (metrics s)"
  from assms have rs: "map ctx (handlers s) = requests sched"
    by (rule requests_reachable)
  have len: "length (heap s) = length ?mc"
    using rd(6) by (metis length_map length_upt minus_nat.diff_0)
  have val: "a < length (heap s) \<and>
      heap s ! a = of_nat (cnt (\<lambda>h. Method (ctx h) = m \<and> finished h) (handlers s))"
    if "map_of ?mc m = Some a" for m a
    using counter_value [OF r that] by simp
  have by_request: "cnt (\<lambda>h. Method (ctx h) = m \<and> finished h) (handlers s)
      = cnt (\<lambda>r. Method r = m) (requests sched)" if "handlers_done s" for m
  proof -
    have "cnt (\<lambda>h. Method (ctx h) = m \<and> finished h) (handlers s)
        = cnt (\<lambda>h. Method (ctx h) = m) (handlers s)"
      using that by (intro cnt_cong) (simp add: handlers_done_def)
    also have "\<dots> = cnt (\<lambda>r. Method r = m) (map ctx (handlers s))"
      by (simp add: cnt_map)
    finally show ?thesis by (simp add: rs)
  qed
  have quiescent: "method_count s m =
      (if m \<in> Method ` set (requests sched)
       then Some (of_nat (cnt (\<lambda>r. Method r = m) (requests sched))) else None)"
    if d: "handlers_done s" for m
  proof (cases "m \<in> Method ` set (requests sched)")
    case True
    then obtain h where h: "h \<in> set (handlers s)" "Method (ctx h) = m"
      using rs by (metis (no_types, lifting) image_iff list.set_map)
    with d have "finished h"
      by (simp add: handlers_done_def)
    with counter_present [OF r h(1)] h(2) obtain a where a: "map_of ?mc m = Some a"
      by auto
    with val [OF a] by_request [OF d] True show ?thesis
      by (simp add: method_count_def)
  next
    case False
    have "map_of ?mc m = None"
    proof (rule ccontr)
      assume "map_of ?mc m \<noteq> None"
      then have "m \<in> fst ` set ?mc"
        by (simp add: map_of_eq_None_iff)
      with rd(8) obtain h where "h \<in> set (handlers s)" "Method (ctx h) = m"
        by blast
      then have "m \<in> Method ` set (map ctx (handlers s))"
        by force
      with False rs show False by simp
    qed
    with False show ?thesis
      by (simp add: method_count_def)
  qed
  have signed: "sint v = int (cnt (\<lambda>r. Method r = m) (requests sched))"
    if d: "handlers_done s" and small: "length (requests sched) < 2 ^ 63"
      and v: "method_count s m = Some v" for m v
  proof -
    have "cnt (\<lambda>r. Method r = m) (requests sched) \<le> length (requests sched)"
      by (rule cnt_le_length)
    with small have "cnt (\<lambda>r. Method r = m) (requests sched) < 2 ^ 63"
      by simp
    moreover from quiescent [OF d, of m] v
    have "v = of_nat (cnt (\<lambda>r. Method r = m) (requests sched))"
      by (simp split: if_splits)
    ultimately show ?thesis
      by (simp add: sint_of_nat_int64)
  qed
  show ?thesis
    using rd(5) len val quiescent signed by blast
qed

theorem methodCounts_exact_witness:
  "run (init 1 0) three_requests = Inr after_three_requests \<and>
   handlers_done after_three_requests \<and>
   length (requests three_requests) < 2 ^ 63 \<and>
   map_of (methodCounts (metrics after_three_requests)) ''POST'' = Some 0 \<and>
   heap after_three_requests ! 0 = 2 \<and>
   cnt (\<lambda>r. Method r = ''POST'') (requests three_requests) = 2 \<and>
   method_count after_three_requests ''POST'' = Some 2 \<and>
   sint (2 :: int64) = 2 \<and>
   method_count after_three_requests ''PUT'' = None \<and>
   length (heap after_three_requests) = 2"
proof -
  have "\<not> isl (run (init 1 0) three_requests)"
    by code_simp
  then have r: "run (init 1 0) three_requests = Inr after_three_requests"
    unfolding after_three_requests_def by (rule projr_run)
  have h: "handlers_done after_three_requests"
    unfolding after_three_requests_def by code_simp
  have rq: "requests three_requests = [post_request ''ab'', post_request ''cde'', health_request]"
    by code_simp
  have n: "length (requests three_requests) < 2 ^ 63"
    "cnt (\<lambda>r. Method r = ''POST'') (requests three_requests) = 2"
    "''POST'' \<in> Method ` set (requests three_requests)"
    "''PUT'' \<notin> Method ` set (requests three_requests)"
    unfolding rq by (simp_all add: post_request_def health_request_def)
  have m: "map_of (methodCounts (metrics after_three_requests)) ''POST'' = Some 0"
    "length (methodCounts (metrics after_three_requests)) = 2"
    unfolding after_three_requests_def by code_simp+
  note t = methodCounts_exact [OF r]
  from t m(2) have objects: "length (heap after_three_requests) = 2"
    by simp
  from t h have q: "method_count after_three_requests k =
      (if k \<in> Method ` set (requests three_requests)
       then Some (of_nat (cnt (\<lambda>r. Method r = k) (requests three_requests))) else None)" for k
    by blast
  from q [of "''POST''"] n have post: "method_count after_three_requests ''POST'' = Some 2"
    by simp
  from q [of "''PUT''"] n have put: "method_count after_three_requests ''PUT'' = None"
    by simp
  from post m(1) have stored: "heap after_three_requests ! 0 = 2"
    by (simp add: method_count_def)
  from t h n(1) post have "sint (2 :: int64) = int (cnt (\<lambda>r. Method r = ''POST'') (requests three_requests))"
    by blast
  with n(2) have signed: "sint (2 :: int64) = 2"
    by simp
  show ?thesis
    using r h n(1,2) m(1) objects post put stored signed by blast
qed

section \<open>The divisions of the final report\<close>

lemma float_args_of_report:
  assumes "Printf fmt args \<in> set (displayMetrics m hp)" "F e \<in> set args"
  shows "e = Div (OfInt64 (totalBodySize m)) (Const (1024 * 1024)) \<or>
         (0 <s totalBodySize m \<and>
          e = Div (Div (OfInt64 (totalBodySize m)) (OfInt64 (totalRequests m))) (Const 1024)) \<or>
         (0 <s droppedBodies m \<and>
          e = Mul (Div (OfInt64 (droppedBodies m)) (OfInt64 (totalRequests m))) (Const 100)) \<or>
         (methodCounts m \<noteq> [] \<and>
          (\<exists>v. e = Mul (Div (OfInt64 v) (OfInt64 (totalRequests m))) (Const 100)))"
  using assms by (auto simp: displayMetrics_def Let_def split: if_splits)

lemma float64_of_positive_int64:
  assumes "0 <s (x :: int64)"
  shows "\<not> is_zero (float64_of_int (sint x))"
proof -
  from assms have "0 < sint x"
    by (simp add: word_sless_alt)
  moreover have "sint x < 2 ^ 63"
    using sint_lt [of x] by simp
  ultimately obtain y where "float64_of_int (sint x) = Finite False y" "1 / 2 \<le> y"
    using float64_of_int_pos by blast
  then show ?thesis
    by simp
qed

lemma constant_divisors:
  "\<not> is_zero (float64_of_int 1024)" "\<not> is_zero (float64_of_int (1024 * 1024))"
  by code_simp+

text \<open>
  C10 as stated does not hold: \<^verbatim>\<open>main\<close> goes on when \<^verbatim>\<open>server.Shutdown()\<close> has returned an
  error, and then \<^verbatim>\<open>displayMetrics\<close> can run while a handler is in flight. Here the handler
  has pushed its body of 2 bytes and has not reached line 159, the worker has added the 2
  bytes, and the report divides \<^verbatim>\<open>float64(2)\<close> by \<^verbatim>\<open>float64(0)\<close>: it shows \<^verbatim>\<open>+Inf KB\<close>.
\<close>

theorem report_divides_by_zero_counterexample:
  "run (init 1 1) early_report = Inr after_early_report \<and>
   main_pc after_early_report = MExit \<and>
   pc (handlers after_early_report ! 0) = H159 \<and>
   totalBodySize (metrics after_early_report) = 2 \<and>
   totalRequests (metrics after_early_report) = 0 \<and>
   Printf ''Average Body Size:  %.2f KB\<newline>'' [F (Div (Div (OfInt64 2) (OfInt64 0)) (Const 1024))]
     \<in> set (console after_early_report) \<and>
   \<not> divisors_nonzero (Div (Div (OfInt64 2) (OfInt64 0)) (Const 1024)) \<and>
   render (Printf ''Average Body Size:  %.2f KB\<newline>''
             [F (Div (Div (OfInt64 2) (OfInt64 0)) (Const 1024))])
     = Some ''Average Body Size:  +Inf KB\<newline>''"
proof -
  have "\<not> isl (run (init 1 1) early_report)"
    by code_simp
  then have r: "run (init 1 1) early_report = Inr after_early_report"
    unfolding after_early_report_def by (rule projr_run)
  have v: "main_pc after_early_report = MExit"
    "pc (handlers after_early_report ! 0) = H159"
    "totalBodySize (metrics after_early_report) = 2"
    "totalRequests (metrics after_early_report) = 0"
    "Printf ''Average Body Size:  %.2f KB\<newline>'' [F (Div (Div (OfInt64 2) (OfInt64 0)) (Const 1024))]
       \<in> set (console after_early_report)"
    unfolding after_early_report_def by code_simp+
  have z: "\<not> divisors_nonzero (Div (Div (OfInt64 2) (OfInt64 0)) (Const 1024))"
    by code_simp
  have p: "render (Printf ''Average Body Size:  %.2f KB\<newline>''
             [F (Div (Div (OfInt64 2) (OfInt64 0)) (Const 1024))])
     = Some ''Average Body Size:  +Inf KB\<newline>''"
    by code_simp
  show ?thesis
    by (intro conjI) (fact r v z p)+
qed

text \<open>
  C10, amended. After any schedule in which fewer than \<open>2 ^ 63\<close> requests arrived: when no
  handler is in flight, \<^verbatim>\<open>droppedBodies <= totalRequests\<close>, and \<^verbatim>\<open>totalBodySize > 0\<close> or
  \<^verbatim>\<open>droppedBodies > 0\<close> implies \<^verbatim>\<open>totalRequests > 0\<close> (comparisons of \<^verbatim>\<open>int64\<close>), so every division
  of \<^verbatim>\<open>displayMetrics\<close> on these metrics has a divisor different from zero; and when \<^verbatim>\<open>main\<close> has
  printed the report and \<^verbatim>\<open>server.Shutdown()\<close> had returned without error, no handler was
  in flight and the report printed is the one of these metrics.
\<close>

theorem report_never_divides_by_zero:
  assumes "run (init queueSize nworkers) sched = Inr s"
    and "length (requests sched) < 2 ^ 63"
  shows "(handlers_done s \<longrightarrow>
            droppedBodies (metrics s) \<le>s totalRequests (metrics s) \<and>
            (0 <s totalBodySize (metrics s) \<longrightarrow> 0 <s totalRequests (metrics s)) \<and>
            (0 <s droppedBodies (metrics s) \<longrightarrow> 0 <s totalRequests (metrics s)) \<and>
            (\<forall>fmt args e. Printf fmt args \<in> set (displayMetrics (metrics s) (heap s)) \<longrightarrow>
               F e \<in> set args \<longrightarrow> divisors_nonzero e)) \<and>
         (main_pc s = MExit \<and> ''Server shutdown error'' \<notin> set (logged s) \<longrightarrow>
            handlers_done s \<and>
            (\<exists>before. console s = before @ displayMetrics (metrics s) (heap s)))"
proof -
  from assms(1) have "inv s" by (rule reachable_inv)
  then have a: "acct s" and r: "registry s"
    by (simp_all add: inv_def)
  from assms(1) have "map ctx (handlers s) = requests sched"
    by (rule requests_reachable)
  then have len: "length (handlers s) = length (requests sched)"
    by (metis length_map)
  let ?n = "length (handlers s)"
  have small: "?n < 2 ^ 63"
    using assms(2) len by simp
  have quiet: "droppedBodies (metrics s) \<le>s totalRequests (metrics s) \<and>
      (0 <s totalBodySize (metrics s) \<longrightarrow> 0 <s totalRequests (metrics s)) \<and>
      (0 <s droppedBodies (metrics s) \<longrightarrow> 0 <s totalRequests (metrics s)) \<and>
      (\<forall>fmt args e. Printf fmt args \<in> set (displayMetrics (metrics s) (heap s)) \<longrightarrow>
         F e \<in> set args \<longrightarrow> divisors_nonzero e)"
    if hd: "handlers_done s"
  proof -
    have total: "sint (totalRequests (metrics s)) = int ?n"
      using done_counted [OF a hd] small by (simp add: sint_of_nat_int64)
    let ?d = "cnt (\<lambda>h. pushed h = Rejected) (handlers s)"
    have d_le: "?d \<le> ?n"
      by (rule cnt_le_length)
    then have dropped: "sint (droppedBodies (metrics s)) = int ?d"
      using done_dropped [OF a hd] small by (simp add: sint_of_nat_int64)
    have le: "droppedBodies (metrics s) \<le>s totalRequests (metrics s)"
      using total dropped d_le by (simp add: word_sle_eq)
    have pos: "0 <s totalRequests (metrics s)" if "handlers s \<noteq> []"
      using that total by (simp add: word_sless_alt)
    have bytes: "handlers s \<noteq> []" if "0 <s totalBodySize (metrics s)"
    proof
      assume "handlers s = []"
      moreover from a obtain c where "totalBodySize (metrics s) = of_nat c"
        "c + queued_bytes s = sum_list (map enqueued_len (handlers s))"
        by (rule acctE)
      ultimately have "totalBodySize (metrics s) = 0"
        by simp
      with that show False
        by (simp add: word_sless_alt)
    qed
    have drops: "handlers s \<noteq> []" if "0 <s droppedBodies (metrics s)"
    proof
      assume "handlers s = []"
      then have "sint (droppedBodies (metrics s)) = 0"
        using dropped by simp
      with that show False
        by (simp add: word_sless_alt)
    qed
    have keys: "handlers s \<noteq> []" if "methodCounts (metrics s) \<noteq> []"
    proof -
      from that obtain m where "m \<in> fst ` set (methodCounts (metrics s))"
        by (cases "methodCounts (metrics s)") auto
      with registryD(8) [OF r] show ?thesis
        by auto
    qed
    have nz: "\<not> is_zero (f64_val (OfInt64 (totalRequests (metrics s))))" if "handlers s \<noteq> []"
      using float64_of_positive_int64 [OF pos [OF that]] by simp
    have "divisors_nonzero e"
      if "Printf fmt args \<in> set (displayMetrics (metrics s) (heap s))" "F e \<in> set args"
      for fmt args e
      using float_args_of_report [OF that] nz bytes drops keys constant_divisors by auto
    then show ?thesis
      using le pos bytes drops by blast
  qed
  have final: "handlers_done s \<and>
      (\<exists>before. console s = before @ displayMetrics (metrics s) (heap s))"
    if "main_pc s = MExit" "''Server shutdown error'' \<notin> set (logged s)"
    using report_after_graceful_shutdown [OF assms(1) that] by (rule conjI)
  from quiet final show ?thesis
    by blast
qed

text \<open>
  After the full run (one request of 2 bytes, a shutdown without error) the report printed
  is the one of the final metrics, with one request, and its divisors are not zero.
\<close>

theorem report_never_divides_by_zero_witness:
  "run (init 1 1) full_run = Inr after_full_run \<and>
   length (requests full_run) < 2 ^ 63 \<and>
   main_pc after_full_run = MExit \<and>
   ''Server shutdown error'' \<notin> set (logged after_full_run) \<and>
   handlers_done after_full_run \<and>
   totalBodySize (metrics after_full_run) = 2 \<and>
   totalRequests (metrics after_full_run) = 1 \<and>
   0 <s totalBodySize (metrics after_full_run) \<and>
   0 <s totalRequests (metrics after_full_run) \<and>
   Printf ''Average Body Size:  %.2f KB\<newline>'' [F (Div (Div (OfInt64 2) (OfInt64 1)) (Const 1024))]
     \<in> set (console after_full_run) \<and>
   divisors_nonzero (Div (Div (OfInt64 2) (OfInt64 1)) (Const 1024))"
proof -
  have "\<not> isl (run (init 1 1) full_run)"
    by code_simp
  then have r: "run (init 1 1) full_run = Inr after_full_run"
    unfolding after_full_run_def by (rule projr_run)
  have "length (requests full_run) = 1"
    by code_simp
  then have n: "length (requests full_run) < 2 ^ 63"
    by simp
  have v: "main_pc after_full_run = MExit"
    "''Server shutdown error'' \<notin> set (logged after_full_run)"
    "totalBodySize (metrics after_full_run) = 2"
    "totalRequests (metrics after_full_run) = 1"
    unfolding after_full_run_def by code_simp+
  have p: "(0 :: int64) <s 2" "(0 :: int64) <s 1"
    by (simp_all add: word_sless_alt)
  note t = report_never_divides_by_zero [OF r n]
  from t v(1,2) have h: "handlers_done after_full_run"
    and c: "\<exists>before. console after_full_run
        = before @ displayMetrics (metrics after_full_run) (heap after_full_run)"
    by blast+
  have line: "Printf ''Average Body Size:  %.2f KB\<newline>''
      [F (Div (Div (OfInt64 2) (OfInt64 1)) (Const 1024))]
     \<in> set (displayMetrics (metrics after_full_run) (heap after_full_run))"
    using v(3,4) p by (simp add: displayMetrics_def Let_def)
  with c have printed: "Printf ''Average Body Size:  %.2f KB\<newline>''
      [F (Div (Div (OfInt64 2) (OfInt64 1)) (Const 1024))] \<in> set (console after_full_run)"
    by auto
  from t h line have d: "divisors_nonzero (Div (Div (OfInt64 2) (OfInt64 1)) (Const 1024))"
    by (metis list.set_intros(1))
  from v(3,4) p have q: "0 <s totalBodySize (metrics after_full_run)"
    "0 <s totalRequests (metrics after_full_run)"
    by simp_all
  show ?thesis
    by (intro conjI) (fact r n v h q printed d)+
qed

section \<open>The non-blocking push and the drop counter\<close>

lemma handler_step_at:
  assumes "i < length (handlers s)" "requestHandler_step (handlers s ! i) s = Inr (h', s')"
  shows "handler_step i s = Inr (s'\<lparr>handlers := (handlers s')[i := h']\<rparr>)"
  using assms by (simp add: handler_step_def)

lemma push_step:
  assumes "inv s" "i < length (handlers s)" "pc (handlers s ! i) = H144"
    "Body (ctx (handlers s ! i)) \<noteq> []" "\<not> chan_closed (bodyQueue s)"
  shows "\<exists>t. handler_step i s = Inr t \<and>
           droppedBodies (metrics t) = droppedBodies (metrics s) \<and>
           totalBodySize (metrics t) = totalBodySize (metrics s) \<and>
           (if full (bodyQueue s)
            then pc (handlers t ! i) = H154 \<and> pushed (handlers t ! i) = Rejected \<and>
                 bodyQueue t = bodyQueue s \<and> workers t = workers s
            else pc (handlers t ! i) = H159 \<and> pushed (handlers t ! i) = Enqueued \<and>
                 queued_bytes t = queued_bytes s + length (Body (ctx (handlers s ! i))))"
proof -
  let ?h = "handlers s ! i"
  let ?rb = "\<lparr>body = Body (ctx ?h), method_v = Method (ctx ?h)\<rparr>"
  from assms(1) have a: "acct s" by (simp add: inv_def)
  from a have q: "\<forall>j \<in> set (recvq (bodyQueue s)). j < length (workers s) \<and> workers s ! j = W166_parked"
    "recvq (bodyQueue s) \<noteq> [] \<longrightarrow> buf (bodyQueue s) = []"
    "length (buf (bodyQueue s)) \<le> cap (bodyQueue s)"
    by (auto elim: acctE)
  show ?thesis
  proof (cases "recvq (bodyQueue s)")
    case (Cons j rest)
    let ?s' = "s\<lparr>workers := (workers s)[j := W169 ?rb], bodyQueue := (bodyQueue s)\<lparr>recvq := rest\<rparr>\<rparr>"
    have st: "requestHandler_step ?h s = Inr (?h\<lparr>pc := H159, pushed := Enqueued\<rparr>, ?s')"
      using assms(3-5) Cons by (simp add: requestHandler_step_def chansend_def Let_def)
    from q Cons have j: "j < length (workers s)" "workers s ! j = W166_parked" "buf (bodyQueue s) = []"
      by auto
    have "sum_list (map holding ((workers s)[j := W169 ?rb])) + holding (workers s ! j)
        = sum_list (map holding (workers s)) + holding (W169 ?rb)"
      using j(1) by (rule sum_list_map_update)
    then have bytes: "queued_bytes ?s' = queued_bytes s + length (Body (ctx ?h))"
      using j by (simp add: queued_bytes_def)
    have nf: "\<not> full (bodyQueue s)"
      using Cons j(3) by (simp add: full_def)
    show ?thesis
      using handler_step_at [OF assms(2) st] assms(2) bytes nf
      by (simp add: queued_bytes_def)
  next
    case Nil
    show ?thesis
    proof (cases "length (buf (bodyQueue s)) < cap (bodyQueue s)")
      case True
      let ?s' = "s\<lparr>bodyQueue := (bodyQueue s)\<lparr>buf := buf (bodyQueue s) @ [?rb]\<rparr>\<rparr>"
      have st: "requestHandler_step ?h s = Inr (?h\<lparr>pc := H159, pushed := Enqueued\<rparr>, ?s')"
        using assms(3-5) Nil True by (simp add: requestHandler_step_def chansend_def Let_def)
      have nf: "\<not> full (bodyQueue s)"
        using True by (auto simp: full_def)
      show ?thesis
        using handler_step_at [OF assms(2) st] assms(2) nf
        by (simp add: queued_bytes_def)
    next
      case False
      have st: "requestHandler_step ?h s = Inr (?h\<lparr>pc := H154, pushed := Rejected\<rparr>, s)"
        using assms(3-5) Nil False by (simp add: requestHandler_step_def chansend_def Let_def)
      have f: "full (bodyQueue s)"
        using False Nil q(3) by (auto simp: full_def)
      show ?thesis
        using handler_step_at [OF assms(2) st] assms(2) f
        by simp
    qed
  qed
qed

lemma drop_step:
  assumes "i < length (handlers s)" "pc (handlers s ! i) = H154"
  shows "\<exists>t. handler_step i s = Inr t \<and>
           droppedBodies (metrics t) = droppedBodies (metrics s) + 1 \<and>
           pc (handlers t ! i) = H159"
proof -
  have "requestHandler_step (handlers s ! i) s
      = Inr ((handlers s ! i)\<lparr>pc := H159\<rparr>,
             s\<lparr>metrics := (metrics s)\<lparr>droppedBodies := droppedBodies (metrics s) + 1\<rparr>\<rparr>)"
    using assms(2) by (simp add: requestHandler_step_def)
  from handler_step_at [OF assms(1) this] assms(1) show ?thesis
    by simp
qed

text \<open>
  While the queue is open. In every state of every schedule, a handler at the \<^verbatim>\<open>select\<close> of
  line 150 with a non-empty body takes its step without waiting and without touching
  \<^verbatim>\<open>droppedBodies\<close>: if the queue is not full the item is enqueued (in the buffer or in the
  hands of a waiting worker) and the handler goes on to line 159; if it is full nothing
  is enqueued and the handler goes to line 154, whose step adds exactly one to
  \<^verbatim>\<open>droppedBodies\<close>. \<^verbatim>\<open>droppedBodies\<close> is always the number of handlers whose push was
  rejected and that have executed line 154. When no handler is in flight and the queue is
  drained, \<^verbatim>\<open>totalBodySize\<close> plus the lengths of the rejected bodies is the sum of the
  lengths of all bodies.
\<close>

lemma push_or_drop_while_open:
  assumes "run (init queueSize nworkers) sched = Inr s"
  shows "(\<forall>i < length (handlers s).
            pc (handlers s ! i) = H144 \<and> Body (ctx (handlers s ! i)) \<noteq> [] \<and>
            \<not> chan_closed (bodyQueue s) \<and> main_pc s \<noteq> MExit \<longrightarrow>
            (\<exists>t. step s (Handler i) = Inr t \<and>
               droppedBodies (metrics t) = droppedBodies (metrics s) \<and>
               totalBodySize (metrics t) = totalBodySize (metrics s) \<and>
               (if full (bodyQueue s)
                then pc (handlers t ! i) = H154 \<and> pushed (handlers t ! i) = Rejected \<and>
                     bodyQueue t = bodyQueue s \<and> workers t = workers s
                else pc (handlers t ! i) = H159 \<and> pushed (handlers t ! i) = Enqueued \<and>
                     queued_bytes t = queued_bytes s + length (Body (ctx (handlers s ! i)))))) \<and>
         (\<forall>i < length (handlers s).
            pc (handlers s ! i) = H154 \<and> main_pc s \<noteq> MExit \<longrightarrow>
            (\<exists>t. step s (Handler i) = Inr t \<and>
               droppedBodies (metrics t) = droppedBodies (metrics s) + 1 \<and>
               pc (handlers t ! i) = H159)) \<and>
         droppedBodies (metrics s) = of_nat (cnt drop_counted (handlers s)) \<and>
         (handlers_done s \<longrightarrow>
            droppedBodies (metrics s) = of_nat (cnt (\<lambda>h. pushed h = Rejected) (handlers s))) \<and>
         (handlers_done s \<and> drained s \<longrightarrow>
            (\<exists>c. totalBodySize (metrics s) = of_nat c \<and>
               c + sum_list (map rejected_len (handlers s))
               = sum_list (map (\<lambda>r. length (Body r)) (requests sched))))"
proof -
  from assms have i: "inv s" by (rule reachable_inv)
  then have a: "acct s" by (simp add: inv_def)
  from assms have rs: "map ctx (handlers s) = requests sched"
    by (rule requests_reachable)
  have push: "\<exists>t. step s (Handler i) = Inr t \<and>
               droppedBodies (metrics t) = droppedBodies (metrics s) \<and>
               totalBodySize (metrics t) = totalBodySize (metrics s) \<and>
               (if full (bodyQueue s)
                then pc (handlers t ! i) = H154 \<and> pushed (handlers t ! i) = Rejected \<and>
                     bodyQueue t = bodyQueue s \<and> workers t = workers s
                else pc (handlers t ! i) = H159 \<and> pushed (handlers t ! i) = Enqueued \<and>
                     queued_bytes t = queued_bytes s + length (Body (ctx (handlers s ! i))))"
    if "i < length (handlers s)" "pc (handlers s ! i) = H144"
      "Body (ctx (handlers s ! i)) \<noteq> []" "\<not> chan_closed (bodyQueue s)" "main_pc s \<noteq> MExit"
    for i
    using push_step [OF i that(1-4)] that(5) by (simp add: step_def)
  have drop: "\<exists>t. step s (Handler i) = Inr t \<and>
               droppedBodies (metrics t) = droppedBodies (metrics s) + 1 \<and>
               pc (handlers t ! i) = H159"
    if "i < length (handlers s)" "pc (handlers s ! i) = H154" "main_pc s \<noteq> MExit" for i
    using drop_step [OF that(1,2)] that(3) by (simp add: step_def)
  have counted: "droppedBodies (metrics s) = of_nat (cnt drop_counted (handlers s))"
    using a by (simp add: acct_def)
  have quiet: "droppedBodies (metrics s) = of_nat (cnt (\<lambda>h. pushed h = Rejected) (handlers s))"
    if "handlers_done s"
    using a that by (rule done_dropped)
  have short: "\<exists>c. totalBodySize (metrics s) = of_nat c \<and>
               c + sum_list (map rejected_len (handlers s))
               = sum_list (map (\<lambda>r. length (Body r)) (requests sched))"
    if "handlers_done s" "drained s"
  proof -
    from a obtain c where c: "totalBodySize (metrics s) = of_nat c"
      "c + queued_bytes s = sum_list (map enqueued_len (handlers s))"
      by (rule acctE)
    have "c + sum_list (map rejected_len (handlers s))
        = sum_list (map (\<lambda>r. length (Body r)) (requests sched))"
      using c(2) drained_queued_bytes [OF that(2)] done_bytes [OF a that(1)]
        body_bytes_requests [OF rs] by linarith
    with c(1) show ?thesis by blast
  qed
  show ?thesis
    using push drop counted quiet short by blast
qed

text \<open>
  A queue of capacity 1 and one worker: the second push is rejected and counted, and at
  the end 3 of the 6 bytes have been consumed and 3 dropped.
\<close>

lemma push_or_drop_while_open_example:
  "run (init 1 1) saturating_prefix = Inr before_push \<and>
   pc (handlers before_push ! 1) = H144 \<and> Body (ctx (handlers before_push ! 1)) = ''cde'' \<and>
   \<not> chan_closed (bodyQueue before_push) \<and> main_pc before_push \<noteq> MExit \<and>
   full (bodyQueue before_push) \<and>
   (\<exists>t. step before_push (Handler 1) = Inr t \<and>
      droppedBodies (metrics t) = droppedBodies (metrics before_push) \<and>
      pc (handlers t ! 1) = H154 \<and> pushed (handlers t ! 1) = Rejected \<and>
      bodyQueue t = bodyQueue before_push) \<and>
   run (init 1 1) (saturating_prefix @ [Handler 1]) = Inr before_drop_count \<and>
   pc (handlers before_drop_count ! 1) = H154 \<and>
   (\<exists>t. step before_drop_count (Handler 1) = Inr t \<and>
      droppedBodies (metrics t) = droppedBodies (metrics before_drop_count) + 1) \<and>
   run (init 1 1) saturating = Inr after_saturating \<and>
   handlers_done after_saturating \<and> drained after_saturating \<and>
   droppedBodies (metrics after_saturating) = 1 \<and>
   totalBodySize (metrics after_saturating) = 3 \<and>
   sum_list (map rejected_len (handlers after_saturating)) = 3 \<and>
   sum_list (map (\<lambda>r. length (Body r)) (requests saturating)) = 6"
proof -
  have "\<not> isl (run (init 1 1) saturating_prefix)"
    by code_simp
  then have r1: "run (init 1 1) saturating_prefix = Inr before_push"
    unfolding before_push_def by (rule projr_run)
  have h1: "1 < length (handlers before_push)" "pc (handlers before_push ! 1) = H144"
    "Body (ctx (handlers before_push ! 1)) = ''cde''"
    "\<not> chan_closed (bodyQueue before_push)" "main_pc before_push \<noteq> MExit"
    "full (bodyQueue before_push)"
    unfolding before_push_def by code_simp+
  from push_or_drop_while_open [OF r1] h1
  have p1: "\<exists>t. step before_push (Handler 1) = Inr t \<and>
      droppedBodies (metrics t) = droppedBodies (metrics before_push) \<and>
      pc (handlers t ! 1) = H154 \<and> pushed (handlers t ! 1) = Rejected \<and>
      bodyQueue t = bodyQueue before_push"
    by (auto split: if_splits)
  have "\<not> isl (run (init 1 1) (saturating_prefix @ [Handler 1]))"
    by code_simp
  then have r2: "run (init 1 1) (saturating_prefix @ [Handler 1]) = Inr before_drop_count"
    unfolding before_drop_count_def by (rule projr_run)
  have h2: "1 < length (handlers before_drop_count)" "pc (handlers before_drop_count ! 1) = H154"
    "main_pc before_drop_count \<noteq> MExit"
    unfolding before_drop_count_def by code_simp+
  from push_or_drop_while_open [OF r2] h2
  have p2: "\<exists>t. step before_drop_count (Handler 1) = Inr t \<and>
      droppedBodies (metrics t) = droppedBodies (metrics before_drop_count) + 1"
    by blast
  have "\<not> isl (run (init 1 1) saturating)"
    by code_simp
  then have r3: "run (init 1 1) saturating = Inr after_saturating"
    unfolding after_saturating_def by (rule projr_run)
  have h3: "handlers_done after_saturating" "drained after_saturating"
    "droppedBodies (metrics after_saturating) = 1"
    "totalBodySize (metrics after_saturating) = 3"
    "sum_list (map rejected_len (handlers after_saturating)) = 3"
    unfolding after_saturating_def by code_simp+
  have h4: "sum_list (map (\<lambda>r. length (Body r)) (requests saturating)) = 6"
    by code_simp
  from push_or_drop_while_open [OF r3] h3(1,2)
  have "\<exists>c. totalBodySize (metrics after_saturating) = of_nat c \<and>
      c + sum_list (map rejected_len (handlers after_saturating))
      = sum_list (map (\<lambda>r. length (Body r)) (requests saturating))"
    by blast
  with r1 h1 p1 r2 h2 p2 r3 h3 h4 show ?thesis
    by blast
qed

text \<open>
  C3. The handler is written to do what the claim says, and does it while the queue is
  open. It does not on the closed queue: \<^verbatim>\<open>main\<close> closes the queue after \<^verbatim>\<open>server.Shutdown()\<close>
  also when that call returned an error, and then a handler can still be in flight. Here
  the handler is at the \<^verbatim>\<open>select\<close> of line 150 with a body of 2 bytes, the queue has free
  capacity and is closed, and the send panics: the item is neither enqueued nor counted
  as dropped, and the handler never reaches line 159.
\<close>

theorem push_on_closed_queue_panics:
  "run (init 1 1) closing_before_push = Inr closed_before_push \<and>
   pc (handlers closed_before_push ! 0) = H144 \<and>
   Body (ctx (handlers closed_before_push ! 0)) = ''ab'' \<and>
   \<not> full (bodyQueue closed_before_push) \<and>
   chan_closed (bodyQueue closed_before_push) \<and>
   main_pc closed_before_push = M108 \<and>
   ''Server shutdown error'' \<in> set (logged closed_before_push) \<and>
   step closed_before_push (Handler 0) = Inl (Panic ''send on closed channel'') \<and>
   run (init 1 1) (closing_before_push @ [Handler 0]) = Inl (Panic ''send on closed channel'')"
proof -
  have "\<not> isl (run (init 1 1) closing_before_push)"
    by code_simp
  then have r: "run (init 1 1) closing_before_push = Inr closed_before_push"
    unfolding closed_before_push_def by (rule projr_run)
  have v: "pc (handlers closed_before_push ! 0) = H144"
    "Body (ctx (handlers closed_before_push ! 0)) = ''ab''"
    "\<not> full (bodyQueue closed_before_push)"
    "chan_closed (bodyQueue closed_before_push)"
    "main_pc closed_before_push = M108"
    "''Server shutdown error'' \<in> set (logged closed_before_push)"
    "step closed_before_push (Handler 0) = Inl (Panic ''send on closed channel'')"
    unfolding closed_before_push_def by code_simp+
  have p: "run (init 1 1) (closing_before_push @ [Handler 0])
      = Inl (Panic ''send on closed channel'')"
    by code_simp
  show ?thesis
    by (intro conjI) (fact r v p)+
qed

section \<open>Shutdown\<close>

lemma signal_step:
  assumes "step s a = Inr t" "sigChan t \<or> main_pc t \<noteq> M98"
  shows "sigChan s \<or> main_pc s \<noteq> M98 \<or> a = Signal"
  using assms(1)
proof (cases rule: step_cases)
  case (Handler i)
  from Handler(3) have "sigChan t = sigChan s \<and> main_pc t = main_pc s"
  proof (cases rule: handler_step_cases)
    case (step h h' s' before after)
    from step(3) have "sigChan s' = sigChan s \<and> main_pc s' = main_pc s"
      by (cases rule: requestHandler_step_cases) auto
    with step(4) show ?thesis by simp
  qed
  with assms(2) show ?thesis by auto
next
  case (Worker j)
  from Worker(3) have "sigChan t = sigChan s \<and> main_pc t = main_pc s"
    by (cases rule: worker_step_cases) auto
  with assms(2) show ?thesis by auto
next
  case Main
  from Main(2) show ?thesis
    by (cases rule: main_step_cases) auto
qed (use assms(2) in auto)

lemma signal_run:
  assumes "run s sched = Inr t" "sigChan t \<or> main_pc t \<noteq> M98"
  shows "sigChan s \<or> main_pc s \<noteq> M98 \<or> Signal \<in> set sched"
  using assms
proof (induction sched arbitrary: s)
  case Nil
  then show ?case by simp
next
  case (Cons a sched)
  then obtain u where u: "step s a = Inr u" "run u sched = Inr t"
    by (auto split: sum.splits)
  from Cons.IH [OF u(2) Cons.prems(2)] show ?case
  proof (elim disjE)
    assume "Signal \<in> set sched"
    then show ?thesis by simp
  next
    assume "sigChan u"
    with signal_step [OF u(1)] show ?thesis by auto
  next
    assume "main_pc u \<noteq> M98"
    with signal_step [OF u(1)] show ?thesis by auto
  qed
qed

lemma all_exited: "cnt (\<lambda>w. w \<noteq> WExited) ws = 0 \<longleftrightarrow> (\<forall>w \<in> set ws. w = WExited)"
  by (simp add: cnt_zero_iff)

lemma exited_idle: "\<forall>w \<in> set ws. w = WExited \<Longrightarrow> \<forall>w \<in> set ws. idle w"
  by auto

lemma run_append:
  "run s (xs @ ys) = (case run s xs of Inl e \<Rightarrow> Inl e | Inr t \<Rightarrow> run t ys)"
  by (induction xs arbitrary: s) (auto split: sum.splits)

text \<open>Once the queue is closed every worker that has not exited can take a step.\<close>

lemma worker_progress:
  assumes "inv s" "chan_closed (bodyQueue s)" "main_pc s \<noteq> MExit"
    and j: "j < length (workers s)" "workers s ! j \<noteq> WExited"
  shows "\<exists>t. step s (Worker j) = Inr t \<and> backlog t < backlog s \<and>
           chan_closed (bodyQueue t) \<and> main_pc t = main_pc s \<and> handlers t = handlers s"
proof -
  from assms(1) have l: "lifecycle s" by (simp add: inv_def)
  note lc = lifecycleD [OF l]
  have upd: "sum_list (map rank ((workers s)[j := w])) + rank (workers s ! j)
      = sum_list (map rank (workers s)) + rank w" for w
    using j(1) by (rule sum_list_map_update)
  show ?thesis
  proof (cases "workers s ! j")
    case W166
    show ?thesis
    proof (cases "buf (bodyQueue s)")
      case (Cons rb rest)
      let ?t = "s\<lparr>bodyQueue := (bodyQueue s)\<lparr>buf := rest\<rparr>, workers := (workers s)[j := W169 rb]\<rparr>"
      have "step s (Worker j) = Inr ?t"
        using assms(3) j(1) W166 Cons
        by (simp add: step_def worker_step_def chanrecv_def Let_def)
      moreover have "backlog ?t < backlog s"
        using upd [of "W169 rb"] W166 Cons by (simp add: backlog_def)
      ultimately show ?thesis
        using assms(2) by auto
    next
      case Nil
      let ?t = "s\<lparr>workers := (workers s)[j := W164]\<rparr>"
      have "step s (Worker j) = Inr ?t"
        using assms(2,3) j(1) W166 Nil
        by (simp add: step_def worker_step_def chanrecv_def Let_def)
      moreover have "backlog ?t < backlog s"
        using upd [of W164] W166 by (simp add: backlog_def)
      ultimately show ?thesis
        using assms(2) by auto
    qed
  next
    case W166_parked
    with lc(5) j(1) have "j \<in> set (recvq (bodyQueue s))"
      by blast
    with lc(6) assms(2) show ?thesis
      by simp
  next
    case (W169 rb)
    let ?t = "s\<lparr>metrics := (metrics s)
                \<lparr>totalBodySize := totalBodySize (metrics s) + of_nat (length (body rb))\<rparr>,
              workers := (workers s)[j := W166]\<rparr>"
    have "step s (Worker j) = Inr ?t"
      using assms(3) j(1) W169 by (simp add: step_def worker_step_def Let_def)
    moreover have "backlog ?t < backlog s"
      using upd [of W166] W169 by (simp add: backlog_def)
    ultimately show ?thesis
      using assms(2) by auto
  next
    case W164
    let ?t = "s\<lparr>wg := wg s - 1, workers := (workers s)[j := WExited]\<rparr>"
    have "workers s ! j \<in> set (workers s)"
      using j(1) by simp
    with j(2) have "cnt (\<lambda>w. w \<noteq> WExited) (workers s) \<noteq> 0"
      by (auto simp: cnt_zero_iff)
    with lc(2) have "wg s \<noteq> 0"
      by simp
    then have "step s (Worker j) = Inr ?t"
      using assms(3) j(1) W164 by (simp add: step_def worker_step_def)
    moreover have "backlog ?t < backlog s"
      using upd [of WExited] W164 by (simp add: backlog_def)
    ultimately show ?thesis
      using assms(2) by auto
  next
    case WExited
    with j(2) show ?thesis by simp
  qed
qed

text \<open>So the workers can always finish the drain: \<^verbatim>\<open>wg.Wait()\<close> does not wait forever.\<close>

lemma drain_terminates:
  assumes "inv s" "chan_closed (bodyQueue s)" "main_pc s \<noteq> MExit"
  shows "\<exists>js t. run s (map Worker js) = Inr t \<and> (\<forall>w \<in> set (workers t). w = WExited) \<and>
           main_pc t = main_pc s \<and> handlers t = handlers s"
  using assms
proof (induction "backlog s" arbitrary: s rule: less_induct)
  case less
  show ?case
  proof (cases "\<forall>w \<in> set (workers s). w = WExited")
    case True
    then have "run s (map Worker []) = Inr s \<and> (\<forall>w \<in> set (workers s). w = WExited)"
      by simp
    then show ?thesis by blast
  next
    case False
    then obtain j where j: "j < length (workers s)" "workers s ! j \<noteq> WExited"
      by (auto simp: in_set_conv_nth)
    from worker_progress [OF less.prems j] obtain u where
      u: "step s (Worker j) = Inr u" "backlog u < backlog s" "chan_closed (bodyQueue u)"
        "main_pc u = main_pc s" "handlers u = handlers s"
      by blast
    from less.prems(1) u(1) have "inv u"
      by (rule inv_step)
    from less.hyps [OF u(2) this u(3)] u(4) less.prems(3) obtain js t where
      t: "run u (map Worker js) = Inr t" "\<forall>w \<in> set (workers t). w = WExited"
        "main_pc t = main_pc u" "handlers t = handlers u"
      by auto
    from u(1) t(1) have "run s (map Worker (j # js)) = Inr t"
      by simp
    moreover from t(3,4) u(4,5) have "main_pc t = main_pc s" "handlers t = handlers s"
      by simp_all
    ultimately show ?thesis
      using t(2) by blast
  qed
qed

lemma wait_returns:
  assumes "inv s" "main_pc s = M108"
  shows "\<exists>js t. run s (map Worker js @ [Main]) = Inr t \<and> main_pc t = M111 \<and>
           (\<forall>w \<in> set (workers t). w = WExited)"
proof -
  from assms have c: "chan_closed (bodyQueue s)"
    by (simp add: inv_def lifecycle_def)
  from drain_terminates [OF assms(1) c] assms(2) obtain js t where
    t: "run s (map Worker js) = Inr t" "\<forall>w \<in> set (workers t). w = WExited" "main_pc t = M108"
    by auto
  from assms(1) t(1) have "inv t"
    by (rule inv_run)
  then have "wg t = cnt (\<lambda>w. w \<noteq> WExited) (workers t)"
    by (simp add: inv_def lifecycle_def)
  with t(2) have "wg t = 0"
    by (simp add: all_exited)
  with t(3) have "step t Main = Inr (t\<lparr>main_pc := M111\<rparr>)"
    by (simp add: step_def main_step_def)
  with t(1) have "run s (map Worker js @ [Main]) = Inr (t\<lparr>main_pc := M111\<rparr>)"
    by (simp add: run_append)
  moreover have "main_pc (t\<lparr>main_pc := M111\<rparr>) = M111"
    by simp
  moreover have "\<forall>w \<in> set (workers (t\<lparr>main_pc := M111\<rparr>)). w = WExited"
    using t(2) by simp
  ultimately show ?thesis
    by blast
qed

text \<open>
  C4. In every state of every schedule: \<^verbatim>\<open>main\<close> leaves line 98 only after a signal; a
  failing \<^verbatim>\<open>server.Shutdown()\<close> is logged and \<^verbatim>\<open>main\<close> goes on to close the queue; the queue
  is closed only by \<^verbatim>\<open>main\<close>, after the listener has been shut down or the error logged;
  \<^verbatim>\<open>wg.Wait()\<close> returns exactly when every worker has exited; a worker leaves its loop only
  when the queue is closed and empty; once \<^verbatim>\<open>wg.Wait()\<close> has returned every worker has
  exited, and (if there is a worker at all) the queue is drained and \<^verbatim>\<open>totalBodySize\<close>
  holds the bytes of every enqueued body; the report printed before exit shows the
  metrics of that state.
\<close>

theorem shutdown_sequence:
  assumes "run (init queueSize nworkers) sched = Inr s"
  shows "(main_pc s \<noteq> M98 \<longrightarrow> Signal \<in> set sched) \<and>
         (main_pc s = M102 \<or> main_pc s = M102_wait \<longrightarrow>
            (\<exists>t. step s ShutdownFails = Inr t \<and> main_pc t = M107 \<and>
               \<not> chan_closed (bodyQueue t) \<and> ''Server shutdown error'' \<in> set (logged t))) \<and>
         (main_pc s = M107 \<longrightarrow>
            (\<exists>t. step s Main = Inr t \<and> chan_closed (bodyQueue t) \<and> main_pc t = M108)) \<and>
         (chan_closed (bodyQueue s) \<longrightarrow>
            closed_by_main (main_pc s) \<and>
            (\<not> listening s \<or> ''Server shutdown error'' \<in> set (logged s))) \<and>
         (main_pc s = M108 \<longrightarrow>
            (\<exists>t. step s Main = Inr t) = (\<forall>w \<in> set (workers s). w = WExited)) \<and>
         (\<forall>w \<in> set (workers s). leaving w \<longrightarrow>
            chan_closed (bodyQueue s) \<and> buf (bodyQueue s) = []) \<and>
         (waited (main_pc s) \<longrightarrow> (\<forall>w \<in> set (workers s). w = WExited)) \<and>
         (waited (main_pc s) \<and> workers s \<noteq> [] \<longrightarrow>
            drained s \<and>
            totalBodySize (metrics s) = of_nat (sum_list (map enqueued_len (handlers s)))) \<and>
         (main_pc s = MExit \<longrightarrow>
            (\<exists>before. console s = before @ displayMetrics (metrics s) (heap s))) \<and>
         (main_pc s = M108 \<longrightarrow>
            (\<exists>js t. run s (map Worker js @ [Main]) = Inr t \<and> main_pc t = M111 \<and>
               (\<forall>w \<in> set (workers t). w = WExited)))"
proof -
  from assms have i: "inv s" by (rule reachable_inv)
  then have a: "acct s" and l: "lifecycle s"
    by (simp_all add: inv_def)
  note lc = lifecycleD [OF l]
  have sig: "Signal \<in> set sched" if "main_pc s \<noteq> M98"
    using signal_run [OF assms] that by (simp add: init_def)
  have fails: "\<exists>t. step s ShutdownFails = Inr t \<and> main_pc t = M107 \<and>
      \<not> chan_closed (bodyQueue t) \<and> ''Server shutdown error'' \<in> set (logged t)"
    if "main_pc s = M102 \<or> main_pc s = M102_wait"
    using that lc(1) by (auto simp: step_def shutdown_fails_def)
  have closes: "\<exists>t. step s Main = Inr t \<and> chan_closed (bodyQueue t) \<and> main_pc t = M108"
    if "main_pc s = M107"
    using that lc(1) by (simp add: step_def main_step_def closechan_def Let_def)
  have closed: "closed_by_main (main_pc s) \<and>
      (\<not> listening s \<or> ''Server shutdown error'' \<in> set (logged s))"
    if "chan_closed (bodyQueue s)"
  proof -
    from that lc(1) have c: "closed_by_main (main_pc s)" by simp
    then have "shutdown_called (main_pc s)"
      by (cases "main_pc s") auto
    with lc(8) c show ?thesis by simp
  qed
  have wait: "(\<exists>t. step s Main = Inr t) = (\<forall>w \<in> set (workers s). w = WExited)"
    if "main_pc s = M108"
    using that lc(2) by (auto simp: step_def main_step_def all_exited)
  have leave: "\<forall>w \<in> set (workers s). leaving w \<longrightarrow>
      chan_closed (bodyQueue s) \<and> buf (bodyQueue s) = []"
    using lc(4) by blast
  have gone: "\<forall>w \<in> set (workers s). w = WExited" if "waited (main_pc s)"
    using that lc(2,3) by (simp add: all_exited)
  have drain: "drained s \<and>
      totalBodySize (metrics s) = of_nat (sum_list (map enqueued_len (handlers s)))"
    if w: "waited (main_pc s)" and some: "workers s \<noteq> []"
  proof -
    from some obtain x where x: "x \<in> set (workers s)"
      by (cases "workers s") auto
    with gone [OF w] have "leaving x" by auto
    with x lc(4) have "buf (bodyQueue s) = []" by blast
    with gone [OF w] have d: "drained s"
      by (auto simp: drained_def)
    from a obtain c where c: "totalBodySize (metrics s) = of_nat c"
      "c + queued_bytes s = sum_list (map enqueued_len (handlers s))"
      by (rule acctE)
    with drained_queued_bytes [OF d] d show ?thesis
      by simp
  qed
  have ends: "\<exists>js t. run s (map Worker js @ [Main]) = Inr t \<and> main_pc t = M111 \<and>
      (\<forall>w \<in> set (workers t). w = WExited)" if "main_pc s = M108"
    using i that by (rule wait_returns)
  show ?thesis
    using sig fails closes closed wait leave gone drain lc(9) ends by blast
qed

text \<open>
  A run to the end; a run in which \<^verbatim>\<open>server.Shutdown()\<close> fails; a run in which the queue is
  closed on a backlog, where \<^verbatim>\<open>wg.Wait()\<close> has to wait for the worker.
\<close>

theorem shutdown_sequence_witness:
  "run (init 1 1) full_run = Inr after_full_run \<and>
   main_pc after_full_run = MExit \<and> waited (main_pc after_full_run) \<and>
   workers after_full_run = [WExited] \<and> Signal \<in> set full_run \<and>
   chan_closed (bodyQueue after_full_run) \<and> \<not> listening after_full_run \<and>
   drained after_full_run \<and>
   totalBodySize (metrics after_full_run)
     = of_nat (sum_list (map enqueued_len (handlers after_full_run))) \<and>
   (\<exists>before. console after_full_run
      = before @ displayMetrics (metrics after_full_run) (heap after_full_run)) \<and>
   run (init 1 1) failing_shutdown = Inr at_shutdown \<and>
   main_pc at_shutdown = M102 \<and>
   (\<exists>t. step at_shutdown ShutdownFails = Inr t \<and> main_pc t = M107 \<and>
      ''Server shutdown error'' \<in> set (logged t)) \<and>
   run (init 1 1) closing_with_backlog = Inr closed_with_backlog \<and>
   main_pc closed_with_backlog = M108 \<and>
   workers closed_with_backlog \<noteq> [WExited] \<and>
   (\<nexists>t. step closed_with_backlog Main = Inr t) \<and>
   (\<exists>js t. run closed_with_backlog (map Worker js @ [Main]) = Inr t \<and> main_pc t = M111)"
proof -
  have "\<not> isl (run (init 1 1) full_run)"
    by code_simp
  then have r1: "run (init 1 1) full_run = Inr after_full_run"
    unfolding after_full_run_def by (rule projr_run)
  have h1: "main_pc after_full_run = MExit" "workers after_full_run = [WExited]"
    unfolding after_full_run_def by code_simp+
  then have h1': "waited (main_pc after_full_run)" "workers after_full_run \<noteq> []"
    "leaving (hd (workers after_full_run))" "hd (workers after_full_run) \<in> set (workers after_full_run)"
    by simp_all
  have l1: "\<not> listening after_full_run"
    unfolding after_full_run_def by code_simp
  note t1 = shutdown_sequence [OF r1]
  from t1 h1 have sig: "Signal \<in> set full_run"
    by simp
  from t1 h1' have cl: "chan_closed (bodyQueue after_full_run)"
    by blast
  from t1 h1' have dr: "drained after_full_run"
    "totalBodySize (metrics after_full_run)
     = of_nat (sum_list (map enqueued_len (handlers after_full_run)))"
    by blast+
  from t1 h1(1) have rep: "\<exists>before. console after_full_run
      = before @ displayMetrics (metrics after_full_run) (heap after_full_run)"
    by blast
  have "\<not> isl (run (init 1 1) failing_shutdown)"
    by code_simp
  then have r2: "run (init 1 1) failing_shutdown = Inr at_shutdown"
    unfolding at_shutdown_def by (rule projr_run)
  have h2: "main_pc at_shutdown = M102"
    unfolding at_shutdown_def by code_simp
  from shutdown_sequence [OF r2] h2
  have f2: "\<exists>t. step at_shutdown ShutdownFails = Inr t \<and> main_pc t = M107 \<and>
      ''Server shutdown error'' \<in> set (logged t)"
    by blast
  have "\<not> isl (run (init 1 1) closing_with_backlog)"
    by code_simp
  then have r3: "run (init 1 1) closing_with_backlog = Inr closed_with_backlog"
    unfolding closed_with_backlog_def by (rule projr_run)
  have h3: "main_pc closed_with_backlog = M108" "workers closed_with_backlog \<noteq> [WExited]"
    "\<not> (\<forall>w \<in> set (workers closed_with_backlog). w = WExited)"
    unfolding closed_with_backlog_def by code_simp+
  note t3 = shutdown_sequence [OF r3]
  from t3 h3 have blocked: "\<nexists>t. step closed_with_backlog Main = Inr t"
    by blast
  from t3 h3(1) have ends: "\<exists>js t. run closed_with_backlog (map Worker js @ [Main]) = Inr t \<and>
      main_pc t = M111"
    by blast
  show ?thesis
    using r1 h1 h1'(1) sig cl l1 dr rep r2 h2 f2 r3 h3(1,2) blocked ends by blast
qed

section \<open>A request without body\<close>

text \<open>The handler runs alone, on a free mutex, for a method that is not in the map yet.\<close>

lemma solo_new_method:
  assumes "main_pc s \<noteq> MExit" "i < length (handlers s)" "pc (handlers s ! i) = H116"
    "Body (ctx (handlers s ! i)) = []"
    "methodCountsMux (metrics s) = \<lparr>readers = 0, writer = False\<rparr>"
    "map_of (methodCounts (metrics s)) (Method (ctx (handlers s ! i))) = None"
  shows "case run s (replicate 13 (Handler i)) of
           Inl e \<Rightarrow> False
         | Inr t \<Rightarrow>
             pc (handlers t ! i) = HDone \<and> status (handlers t ! i) = Some 200 \<and>
             replied (handlers t ! i) = Some 200 \<and>
             pushed (handlers t ! i) = pushed (handlers s ! i) \<and>
             totalRequests (metrics t) = totalRequests (metrics s) + 1 \<and>
             totalBodySize (metrics t) = totalBodySize (metrics s) \<and>
             droppedBodies (metrics t) = droppedBodies (metrics s) \<and>
             bodyQueue t = bodyQueue s \<and> workers t = workers s \<and>
             methodCounts (metrics t)
               = AList.update (Method (ctx (handlers s ! i))) (length (heap s))
                   (methodCounts (metrics s)) \<and>
             heap t = heap s @ [1]"
  using assms
  by (simp add: eval_nat_numeral step_def handler_step_def requestHandler_step_def
        incrementMethodCount_step_def Let_def)

text \<open>The same for a method that is in the map.\<close>

lemma solo_known_method:
  assumes "main_pc s \<noteq> MExit" "i < length (handlers s)" "pc (handlers s ! i) = H116"
    "Body (ctx (handlers s ! i)) = []"
    "methodCountsMux (metrics s) = \<lparr>readers = 0, writer = False\<rparr>"
    "map_of (methodCounts (metrics s)) (Method (ctx (handlers s ! i))) = Some a"
  shows "case run s (replicate 9 (Handler i)) of
           Inl e \<Rightarrow> False
         | Inr t \<Rightarrow>
             pc (handlers t ! i) = HDone \<and> status (handlers t ! i) = Some 200 \<and>
             replied (handlers t ! i) = Some 200 \<and>
             pushed (handlers t ! i) = pushed (handlers s ! i) \<and>
             totalRequests (metrics t) = totalRequests (metrics s) + 1 \<and>
             totalBodySize (metrics t) = totalBodySize (metrics s) \<and>
             droppedBodies (metrics t) = droppedBodies (metrics s) \<and>
             bodyQueue t = bodyQueue s \<and> workers t = workers s \<and>
             methodCounts (metrics t) = methodCounts (metrics s) \<and>
             heap t = (heap s)[a := heap s ! a + 1]"
  using assms
  by (simp add: eval_nat_numeral step_def handler_step_def requestHandler_step_def
        incrementMethodCount_step_def Let_def)

lemma mutex_free:
  assumes "registry s" "\<forall>h \<in> set (handlers s). \<not> in_write h \<and> \<not> in_read h"
  shows "methodCountsMux (metrics s) = \<lparr>readers = 0, writer = False\<rparr>"
proof -
  note r = registryD [OF assms(1)]
  from assms(2) have "cnt in_write (handlers s) = 0" "cnt in_read (handlers s) = 0"
    by (simp_all add: cnt_zero_iff)
  with r(1,2) have "readers (methodCountsMux (metrics s)) = 0"
    "\<not> writer (methodCountsMux (metrics s))"
    by (auto split: if_splits)
  then show ?thesis
    by (cases "methodCountsMux (metrics s)") simp
qed

text \<open>No step of a handler whose request has no body touches the queue or the byte and drop counters.\<close>

lemma bodyless_step_frame:
  assumes "inv s" "i < length (handlers s)" "Body (ctx (handlers s ! i)) = []"
    "handler_step i s = Inr t"
  shows "bodyQueue t = bodyQueue s \<and> workers t = workers s \<and>
         totalBodySize (metrics t) = totalBodySize (metrics s) \<and>
         droppedBodies (metrics t) = droppedBodies (metrics s)"
  using assms(4)
proof (cases rule: handler_step_cases)
  case (step h h' s' before after)
  from step(1,2) have h: "handlers s ! i = h"
    by simp
  with assms(3) have empty: "Body (ctx h) = []"
    by simp
  from assms(1) step(1) have "push_ok h"
    by (simp add: inv_def acct_def)
  with empty have not154: "pc h \<noteq> H154"
    by (auto simp: push_ok_def)
  from step(3) have "bodyQueue s' = bodyQueue s \<and> workers s' = workers s \<and>
         totalBodySize (metrics s') = totalBodySize (metrics s) \<and>
         droppedBodies (metrics s') = droppedBodies (metrics s)"
    by (cases rule: requestHandler_step_cases) (use empty not154 in auto)
  with step(4) show ?thesis
    by simp
qed

text \<open>
  What one step of such a handler does to the counters: line 159 adds one to
  \<^verbatim>\<open>totalRequests\<close>, line 188 adds one to the counter of the method, line 182 creates that
  counter, and no step changes anything else of the counters.
\<close>

lemma bodyless_step_counters:
  assumes "inv s" "i < length (handlers s)" "Body (ctx (handlers s ! i)) = []"
    "handler_step i s = Inr t"
  shows "totalRequests (metrics t)
         = totalRequests (metrics s) + (if pc (handlers s ! i) = H159 then 1 else 0)"
    and "method_count t m
         = (if m = Method (ctx (handlers s ! i)) \<and> pc (handlers s ! i) = H188
            then map_option (\<lambda>v. v + 1) (method_count s m)
            else if m = Method (ctx (handlers s ! i)) \<and> pc (handlers s ! i) = H182
            then Some 0 else method_count s m)"
    and "pushed (handlers t ! i) = NotTried"
    and "status (handlers t ! i) = Some 200"
    and "past159 (pc (handlers s ! i)) \<longrightarrow> past159 (pc (handlers t ! i))"
    and "past188 (pc (handlers s ! i)) \<longrightarrow> past188 (pc (handlers t ! i))"
proof -
  from assms(4) obtain h h' s' before after where
    step: "handlers s = before @ h # after" "i = length before"
      "requestHandler_step h s = Inr (h', s')"
      "t = s'\<lparr>handlers := before @ h' # after\<rparr>"
    by (rule handler_step_cases)
  from step(1,2) have h: "handlers s ! i = h"
    by simp
  from step(2,4) have h': "handlers t ! i = h'"
    by simp
  from step(4) have t: "metrics t = metrics s'" "heap t = heap s'"
    by simp_all
  from assms(3) h have empty: "Body (ctx h) = []"
    by simp
  from assms(1) have a: "acct s" and r: "registry s" and rp: "\<forall>h \<in> set (handlers s). reply_ok h"
    by (simp_all add: inv_def)
  note rd = registryD [OF r]
  from step(1) have mem: "h \<in> set (handlers s)"
    by simp
  from a mem have "push_ok h"
    by (auto elim: acctE)
  with empty have nt: "pushed h = NotTried" and not154: "pc h \<noteq> H154"
    by (auto simp: push_ok_def split: if_splits)
  from rp mem have st: "pc h \<noteq> H116 \<longrightarrow> status h = Some 200"
    by (simp add: reply_ok_def)
  from rd(4) mem have ptr: "ptr_ok (methodCounts (metrics s)) h"
    by blast
  from step(3) show "totalRequests (metrics t)
      = totalRequests (metrics s) + (if pc (handlers s ! i) = H159 then 1 else 0)"
    unfolding h t by (cases rule: requestHandler_step_cases) (auto split: if_splits)
  from step(3) show "pushed (handlers t ! i) = NotTried"
    unfolding h' by (cases rule: requestHandler_step_cases) (use nt empty in auto)
  from step(3) show "status (handlers t ! i) = Some 200"
    unfolding h' by (cases rule: requestHandler_step_cases) (use st in auto)
  from step(3) show "past159 (pc (handlers s ! i)) \<longrightarrow> past159 (pc (handlers t ! i))"
    unfolding h h' by (cases rule: requestHandler_step_cases) auto
  from step(3) show "past188 (pc (handlers s ! i)) \<longrightarrow> past188 (pc (handlers t ! i))"
    unfolding h h' by (cases rule: requestHandler_step_cases) auto
  let ?k = "Method (ctx h)"
  let ?mc = "methodCounts (metrics s)"
  from step(3) have "method_count s' m
      = (if m = ?k \<and> pc h = H188 then map_option (\<lambda>v. v + 1) (method_count s m)
         else if m = ?k \<and> pc h = H182 then Some 0 else method_count s m)"
  proof (cases rule: requestHandler_step_cases)
    case L182
    show ?thesis
    proof (cases "m = ?k")
      case True
      with L182 show ?thesis
        by (simp add: method_count_def update_conv')
    next
      case False
      show ?thesis
      proof (cases "map_of ?mc m")
        case None
        with False L182 show ?thesis
          by (simp add: method_count_def update_conv')
      next
        case (Some b)
        then have "b < length (heap s)"
          using rd(6) by (rule map_of_snd_range)
        with False L182 Some show ?thesis
          by (simp add: method_count_def update_conv' nth_append)
      qed
    qed
  next
    case (L188 c)
    from ptr L188(1,2) have own: "map_of ?mc ?k = Some c"
      by (simp add: ptr_ok_def)
    then have c: "c < length (heap s)"
      using rd(6) by (rule map_of_snd_range)
    have d: "distinct (map snd ?mc)"
      using rd(6) by simp
    show ?thesis
    proof (cases "m = ?k")
      case True
      with L188 own c show ?thesis
        by (simp add: method_count_def)
    next
      case False
      show ?thesis
      proof (cases "map_of ?mc m")
        case None
        with False L188 show ?thesis
          by (simp add: method_count_def)
      next
        case (Some b)
        have "b \<noteq> c"
        proof
          assume "b = c"
          with Some have "map_of ?mc m = Some c" by simp
          with d have "m = ?k" using own by (rule map_of_inj)
          with False show False by simp
        qed
        with False L188 Some show ?thesis
          by (simp add: method_count_def)
      qed
    qed
  qed (auto simp: method_count_def split: if_splits)
  then show "method_count t m
      = (if m = Method (ctx (handlers s ! i)) \<and> pc (handlers s ! i) = H188
         then map_option (\<lambda>v. v + 1) (method_count s m)
         else if m = Method (ctx (handlers s ! i)) \<and> pc (handlers s ! i) = H182
         then Some 0 else method_count s m)"
    unfolding h by (simp add: method_count_def t)
qed

text \<open>
  C7. In every state of every schedule, a step of a handler whose request has an empty
  body leaves the queue, the workers, \<^verbatim>\<open>totalBodySize\<close> and \<^verbatim>\<open>droppedBodies\<close> as they are
  and pushes nothing; it leaves the status at 200; it adds one to \<^verbatim>\<open>totalRequests\<close> if it
  is the step of line 159 and leaves \<^verbatim>\<open>totalRequests\<close> as it is otherwise; it adds one to
  the counter of the method if it is the step of line 188, creates that counter if it is
  the step of line 182, and leaves every other counter as it is; and the handler does
  not come back to line 159 or line 188. Run from its first line while no other handler
  is in flight, such a handler returns: the status and the reply are 200, \<^verbatim>\<open>totalRequests\<close>
  has grown by 1, the counter of its method has grown by 1 (it is 1 if the method was
  new), the counters of the other methods, the queue, the workers, \<^verbatim>\<open>totalBodySize\<close> and
  \<^verbatim>\<open>droppedBodies\<close> are as before, and nothing was pushed.
\<close>

theorem bodyless_request_effect:
  assumes "run (init queueSize nworkers) sched = Inr s"
  shows "(\<forall>i t. i < length (handlers s) \<and> Body (ctx (handlers s ! i)) = [] \<and>
            step s (Handler i) = Inr t \<longrightarrow>
            bodyQueue t = bodyQueue s \<and> workers t = workers s \<and>
            totalBodySize (metrics t) = totalBodySize (metrics s) \<and>
            droppedBodies (metrics t) = droppedBodies (metrics s) \<and>
            pushed (handlers t ! i) = NotTried \<and> status (handlers t ! i) = Some 200 \<and>
            totalRequests (metrics t)
              = totalRequests (metrics s) + (if pc (handlers s ! i) = H159 then 1 else 0) \<and>
            (\<forall>m. method_count t m
               = (if m = Method (ctx (handlers s ! i)) \<and> pc (handlers s ! i) = H188
                  then map_option (\<lambda>v. v + 1) (method_count s m)
                  else if m = Method (ctx (handlers s ! i)) \<and> pc (handlers s ! i) = H182
                  then Some 0 else method_count s m)) \<and>
            (past159 (pc (handlers s ! i)) \<longrightarrow> past159 (pc (handlers t ! i))) \<and>
            (past188 (pc (handlers s ! i)) \<longrightarrow> past188 (pc (handlers t ! i)))) \<and>
         (\<forall>i. i < length (handlers s) \<and> main_pc s \<noteq> MExit \<and>
            pc (handlers s ! i) = H116 \<and> Body (ctx (handlers s ! i)) = [] \<and>
            (\<forall>k < length (handlers s). k \<noteq> i \<longrightarrow> finished (handlers s ! k)) \<longrightarrow>
            (\<exists>n t. run s (replicate n (Handler i)) = Inr t \<and>
               pc (handlers t ! i) = HDone \<and> status (handlers t ! i) = Some 200 \<and>
               replied (handlers t ! i) = Some 200 \<and>
               totalRequests (metrics t) = totalRequests (metrics s) + 1 \<and>
               method_count t (Method (ctx (handlers s ! i)))
                 = Some (case method_count s (Method (ctx (handlers s ! i))) of
                           None \<Rightarrow> 1 | Some v \<Rightarrow> v + 1) \<and>
               (\<forall>m. m \<noteq> Method (ctx (handlers s ! i)) \<longrightarrow> method_count t m = method_count s m) \<and>
               bodyQueue t = bodyQueue s \<and> workers t = workers s \<and>
               totalBodySize (metrics t) = totalBodySize (metrics s) \<and>
               droppedBodies (metrics t) = droppedBodies (metrics s) \<and>
               pushed (handlers t ! i) = NotTried))"
proof -
  from assms have inv: "inv s" by (rule reachable_inv)
  then have r: "registry s" and a: "acct s"
    by (simp_all add: inv_def)
  note rd = registryD [OF r]
  have frame: "\<forall>i t. i < length (handlers s) \<and> Body (ctx (handlers s ! i)) = [] \<and>
            step s (Handler i) = Inr t \<longrightarrow>
            bodyQueue t = bodyQueue s \<and> workers t = workers s \<and>
            totalBodySize (metrics t) = totalBodySize (metrics s) \<and>
            droppedBodies (metrics t) = droppedBodies (metrics s) \<and>
            pushed (handlers t ! i) = NotTried \<and> status (handlers t ! i) = Some 200 \<and>
            totalRequests (metrics t)
              = totalRequests (metrics s) + (if pc (handlers s ! i) = H159 then 1 else 0) \<and>
            (\<forall>m. method_count t m
               = (if m = Method (ctx (handlers s ! i)) \<and> pc (handlers s ! i) = H188
                  then map_option (\<lambda>v. v + 1) (method_count s m)
                  else if m = Method (ctx (handlers s ! i)) \<and> pc (handlers s ! i) = H182
                  then Some 0 else method_count s m)) \<and>
            (past159 (pc (handlers s ! i)) \<longrightarrow> past159 (pc (handlers t ! i))) \<and>
            (past188 (pc (handlers s ! i)) \<longrightarrow> past188 (pc (handlers t ! i)))"
  proof (intro allI impI)
    fix j t
    assume "j < length (handlers s) \<and> Body (ctx (handlers s ! j)) = [] \<and> step s (Handler j) = Inr t"
    then have j: "j < length (handlers s)" "Body (ctx (handlers s ! j)) = []"
      "handler_step j s = Inr t"
      by (auto simp: step_def split: if_splits)
    note c = bodyless_step_counters [OF inv j]
    from bodyless_step_frame [OF inv j] c(1,3-6) c(2)
    show "bodyQueue t = bodyQueue s \<and> workers t = workers s \<and>
            totalBodySize (metrics t) = totalBodySize (metrics s) \<and>
            droppedBodies (metrics t) = droppedBodies (metrics s) \<and>
            pushed (handlers t ! j) = NotTried \<and> status (handlers t ! j) = Some 200 \<and>
            totalRequests (metrics t)
              = totalRequests (metrics s) + (if pc (handlers s ! j) = H159 then 1 else 0) \<and>
            (\<forall>m. method_count t m
               = (if m = Method (ctx (handlers s ! j)) \<and> pc (handlers s ! j) = H188
                  then map_option (\<lambda>v. v + 1) (method_count s m)
                  else if m = Method (ctx (handlers s ! j)) \<and> pc (handlers s ! j) = H182
                  then Some 0 else method_count s m)) \<and>
            (past159 (pc (handlers s ! j)) \<longrightarrow> past159 (pc (handlers t ! j))) \<and>
            (past188 (pc (handlers s ! j)) \<longrightarrow> past188 (pc (handlers t ! j)))"
      by blast
  qed
  have solo: "\<forall>i. i < length (handlers s) \<and> main_pc s \<noteq> MExit \<and>
            pc (handlers s ! i) = H116 \<and> Body (ctx (handlers s ! i)) = [] \<and>
            (\<forall>k < length (handlers s). k \<noteq> i \<longrightarrow> finished (handlers s ! k)) \<longrightarrow>
            (\<exists>n t. run s (replicate n (Handler i)) = Inr t \<and>
               pc (handlers t ! i) = HDone \<and> status (handlers t ! i) = Some 200 \<and>
               replied (handlers t ! i) = Some 200 \<and>
               totalRequests (metrics t) = totalRequests (metrics s) + 1 \<and>
               method_count t (Method (ctx (handlers s ! i)))
                 = Some (case method_count s (Method (ctx (handlers s ! i))) of
                           None \<Rightarrow> 1 | Some v \<Rightarrow> v + 1) \<and>
               (\<forall>m. m \<noteq> Method (ctx (handlers s ! i)) \<longrightarrow> method_count t m = method_count s m) \<and>
               bodyQueue t = bodyQueue s \<and> workers t = workers s \<and>
               totalBodySize (metrics t) = totalBodySize (metrics s) \<and>
               droppedBodies (metrics t) = droppedBodies (metrics s) \<and>
               pushed (handlers t ! i) = NotTried)"
  proof (intro allI impI)
    fix i
    let ?h = "handlers s ! i"
    let ?m = "Method (ctx ?h)"
    assume "i < length (handlers s) \<and> main_pc s \<noteq> MExit \<and>
              pc ?h = H116 \<and> Body (ctx ?h) = [] \<and>
              (\<forall>k < length (handlers s). k \<noteq> i \<longrightarrow> finished (handlers s ! k))"
    then have h: "i < length (handlers s)" "main_pc s \<noteq> MExit" "pc ?h = H116" "Body (ctx ?h) = []"
      and others: "\<forall>k < length (handlers s). k \<noteq> i \<longrightarrow> finished (handlers s ! k)"
      by blast+
    have "\<not> in_write x \<and> \<not> in_read x" if "x \<in> set (handlers s)" for x
    proof -
      from that obtain k where k: "k < length (handlers s)" "handlers s ! k = x"
        by (auto simp: in_set_conv_nth)
      show ?thesis
      proof (cases "k = i")
        case True
        with k h(3) show ?thesis by (simp add: in_write_def in_read_def)
      next
        case False
        with others k have "past188 (pc x)" by (auto simp: finished_def)
        then show ?thesis by (cases "pc x") (auto simp: in_write_def in_read_def)
      qed
    qed
    then have free: "methodCountsMux (metrics s) = \<lparr>readers = 0, writer = False\<rparr>"
      using r by (intro mutex_free) auto
    from a h(1,3) have not_tried: "pushed ?h = NotTried"
      by (auto simp: acct_def push_ok_def)
    show "\<exists>n t. run s (replicate n (Handler i)) = Inr t \<and>
                 pc (handlers t ! i) = HDone \<and> status (handlers t ! i) = Some 200 \<and>
                 replied (handlers t ! i) = Some 200 \<and>
                 totalRequests (metrics t) = totalRequests (metrics s) + 1 \<and>
                 method_count t ?m
                   = Some (case method_count s ?m of None \<Rightarrow> 1 | Some v \<Rightarrow> v + 1) \<and>
                 (\<forall>m. m \<noteq> ?m \<longrightarrow> method_count t m = method_count s m) \<and>
                 bodyQueue t = bodyQueue s \<and> workers t = workers s \<and>
                 totalBodySize (metrics t) = totalBodySize (metrics s) \<and>
                 droppedBodies (metrics t) = droppedBodies (metrics s) \<and>
                 pushed (handlers t ! i) = NotTried"
    proof (cases "map_of (methodCounts (metrics s)) ?m")
      case None
      from solo_new_method [OF h(2,1,3,4) free None] obtain t where
        t: "run s (replicate 13 (Handler i)) = Inr t"
          "pc (handlers t ! i) = HDone" "status (handlers t ! i) = Some 200"
          "replied (handlers t ! i) = Some 200" "pushed (handlers t ! i) = pushed ?h"
          "totalRequests (metrics t) = totalRequests (metrics s) + 1"
          "totalBodySize (metrics t) = totalBodySize (metrics s)"
          "droppedBodies (metrics t) = droppedBodies (metrics s)"
          "bodyQueue t = bodyQueue s" "workers t = workers s"
          "methodCounts (metrics t) = AList.update ?m (length (heap s)) (methodCounts (metrics s))"
          "heap t = heap s @ [1]"
        by (auto split: sum.splits)
      have own: "method_count t ?m = Some (case method_count s ?m of None \<Rightarrow> 1 | Some v \<Rightarrow> v + 1)"
        using t(11,12) None by (simp add: method_count_def update_conv')
      have rest: "method_count t m = method_count s m" if "m \<noteq> ?m" for m
      proof (cases "map_of (methodCounts (metrics s)) m")
        case None
        with that t(11) show ?thesis by (simp add: method_count_def update_conv')
      next
        case (Some b)
        then have "b < length (heap s)"
          using rd(6) by (rule map_of_snd_range)
        with that t(11,12) Some show ?thesis
          by (simp add: method_count_def update_conv' nth_append)
      qed
      show ?thesis
        using t(1-10) own rest not_tried by (intro exI [of _ 13] exI [of _ t]) simp
    next
      case (Some a)
      from solo_known_method [OF h(2,1,3,4) free Some] obtain t where
        t: "run s (replicate 9 (Handler i)) = Inr t"
          "pc (handlers t ! i) = HDone" "status (handlers t ! i) = Some 200"
          "replied (handlers t ! i) = Some 200" "pushed (handlers t ! i) = pushed ?h"
          "totalRequests (metrics t) = totalRequests (metrics s) + 1"
          "totalBodySize (metrics t) = totalBodySize (metrics s)"
          "droppedBodies (metrics t) = droppedBodies (metrics s)"
          "bodyQueue t = bodyQueue s" "workers t = workers s"
          "methodCounts (metrics t) = methodCounts (metrics s)"
          "heap t = (heap s)[a := heap s ! a + 1]"
        by (auto split: sum.splits)
      from Some rd(6) have a: "a < length (heap s)"
        by (rule map_of_snd_range)
      have d: "distinct (map snd (methodCounts (metrics s)))"
        using rd(6) by simp
      have own: "method_count t ?m = Some (case method_count s ?m of None \<Rightarrow> 1 | Some v \<Rightarrow> v + 1)"
        using t(11,12) Some a by (simp add: method_count_def)
      have rest: "method_count t m = method_count s m" if "m \<noteq> ?m" for m
      proof (cases "map_of (methodCounts (metrics s)) m")
        case None
        with t(11) show ?thesis by (simp add: method_count_def)
      next
        case other: (Some b)
        have "b \<noteq> a"
        proof
          assume "b = a"
          with other have "map_of (methodCounts (metrics s)) m = Some a" by simp
          with d have "m = ?m" using Some by (rule map_of_inj)
          with that show False by simp
        qed
        with t(11,12) other show ?thesis
          by (simp add: method_count_def)
      qed
      show ?thesis
        using t(1-10) own rest not_tried by (intro exI [of _ 9] exI [of _ t]) simp
    qed
  qed
  show ?thesis
    using frame solo by (rule conjI)
qed

theorem bodyless_request_effect_witness:
  "run (init 1 1) [Arrive health_request] = Inr health_arrived \<and>
   0 < length (handlers health_arrived) \<and> main_pc health_arrived \<noteq> MExit \<and>
   pc (handlers health_arrived ! 0) = H116 \<and> Body (ctx (handlers health_arrived ! 0)) = [] \<and>
   Method (ctx (handlers health_arrived ! 0)) = ''GET'' \<and>
   length (handlers health_arrived) = 1 \<and>
   method_count health_arrived ''GET'' = None \<and>
   (\<exists>t. step health_arrived (Handler 0) = Inr t \<and>
      status (handlers t ! 0) = Some 200 \<and> pushed (handlers t ! 0) = NotTried \<and>
      bodyQueue t = bodyQueue health_arrived \<and>
      totalRequests (metrics t) = totalRequests (metrics health_arrived) \<and>
      method_count t ''GET'' = None) \<and>
   (\<exists>n t. run health_arrived (replicate n (Handler 0)) = Inr t \<and>
      pc (handlers t ! 0) = HDone \<and> replied (handlers t ! 0) = Some 200 \<and>
      totalRequests (metrics t) = totalRequests (metrics health_arrived) + 1 \<and>
      method_count t ''GET'' = Some 1 \<and>
      bodyQueue t = bodyQueue health_arrived \<and>
      totalBodySize (metrics t) = totalBodySize (metrics health_arrived) \<and>
      droppedBodies (metrics t) = droppedBodies (metrics health_arrived))"
proof -
  have "\<not> isl (run (init 1 1) [Arrive health_request])"
    by code_simp
  then have r: "run (init 1 1) [Arrive health_request] = Inr health_arrived"
    unfolding health_arrived_def by (rule projr_run)
  have h: "0 < length (handlers health_arrived)" "main_pc health_arrived \<noteq> MExit"
    "pc (handlers health_arrived ! 0) = H116" "Body (ctx (handlers health_arrived ! 0)) = []"
    "Method (ctx (handlers health_arrived ! 0)) = ''GET''"
    "length (handlers health_arrived) = 1"
    "method_count health_arrived ''GET'' = None"
    unfolding health_arrived_def by code_simp+
  from h(6) have alone: "\<forall>k < length (handlers health_arrived). k \<noteq> 0 \<longrightarrow>
      finished (handlers health_arrived ! k)"
    by simp
  from bodyless_request_effect [OF r] h(1-4) alone
  have "\<exists>n t. run health_arrived (replicate n (Handler 0)) = Inr t \<and>
      pc (handlers t ! 0) = HDone \<and> replied (handlers t ! 0) = Some 200 \<and>
      totalRequests (metrics t) = totalRequests (metrics health_arrived) + 1 \<and>
      method_count t (Method (ctx (handlers health_arrived ! 0)))
        = Some (case method_count health_arrived (Method (ctx (handlers health_arrived ! 0))) of
                  None \<Rightarrow> 1 | Some v \<Rightarrow> v + 1) \<and>
      bodyQueue t = bodyQueue health_arrived \<and>
      totalBodySize (metrics t) = totalBodySize (metrics health_arrived) \<and>
      droppedBodies (metrics t) = droppedBodies (metrics health_arrived)"
    by blast
  then have solo: "\<exists>n t. run health_arrived (replicate n (Handler 0)) = Inr t \<and>
      pc (handlers t ! 0) = HDone \<and> replied (handlers t ! 0) = Some 200 \<and>
      totalRequests (metrics t) = totalRequests (metrics health_arrived) + 1 \<and>
      method_count t ''GET'' = Some 1 \<and>
      bodyQueue t = bodyQueue health_arrived \<and>
      totalBodySize (metrics t) = totalBodySize (metrics health_arrived) \<and>
      droppedBodies (metrics t) = droppedBodies (metrics health_arrived)"
    using h(5,7) by simp
  have "\<not> isl (step health_arrived (Handler 0))"
    unfolding health_arrived_def by code_simp
  then obtain t where t: "step health_arrived (Handler 0) = Inr t"
    by (cases "step health_arrived (Handler 0)") simp_all
  from bodyless_request_effect [OF r] h(1,4) t
  have "status (handlers t ! 0) = Some 200 \<and> pushed (handlers t ! 0) = NotTried \<and>
      bodyQueue t = bodyQueue health_arrived \<and>
      totalRequests (metrics t)
        = totalRequests (metrics health_arrived)
          + (if pc (handlers health_arrived ! 0) = H159 then 1 else 0) \<and>
      method_count t ''GET''
        = (if ''GET'' = Method (ctx (handlers health_arrived ! 0)) \<and>
              pc (handlers health_arrived ! 0) = H188
           then map_option (\<lambda>v. v + 1) (method_count health_arrived ''GET'')
           else if ''GET'' = Method (ctx (handlers health_arrived ! 0)) \<and>
              pc (handlers health_arrived ! 0) = H182
           then Some 0 else method_count health_arrived ''GET'')"
    by blast
  then have "status (handlers t ! 0) = Some 200 \<and> pushed (handlers t ! 0) = NotTried \<and>
      bodyQueue t = bodyQueue health_arrived \<and>
      totalRequests (metrics t) = totalRequests (metrics health_arrived) \<and>
      method_count t ''GET'' = None"
    using h(3,7) by simp
  with t have one: "\<exists>t. step health_arrived (Handler 0) = Inr t \<and>
      status (handlers t ! 0) = Some 200 \<and> pushed (handlers t ! 0) = NotTried \<and>
      bodyQueue t = bodyQueue health_arrived \<and>
      totalRequests (metrics t) = totalRequests (metrics health_arrived) \<and>
      method_count t ''GET'' = None"
    by blast
  show ?thesis
    by (intro conjI) (fact r h one solo)+
qed

section \<open>The reply and the metrics work\<close>





end
